theory Spec2Isabelle
  imports Main
begin

section \<open>Characters and the character classes of the regular expressions\<close>

text \<open>
  The program is the class \<open>Replacer\<close> of gulp-css-gsub, in the build that descends into
  media blocks (\<open>src/unnamed/part_001\<close>). JavaScript strings are modelled as \<open>string\<close>.
  The regular expressions that the program builds from fixed text and class-name characters
  are modelled by the matchers below, one per expression of the source; an expression that
  contains text of the user (a prefix with other characters, \<open>config.regexp\<close>) is given
  by its matcher.
\<close>

definition is_digit :: "char \<Rightarrow> bool" where
  \<comment> \<open>\<open>\d\<close>, \<open>[0-9]\<close>\<close>
  "is_digit c = (c \<in> set ''0123456789'')"

definition is_lower :: "char \<Rightarrow> bool" where
  \<comment> \<open>\<open>[a-z]\<close>\<close>
  "is_lower c = (c \<in> set ''abcdefghijklmnopqrstuvwxyz'')"

definition is_upper :: "char \<Rightarrow> bool" where
  \<comment> \<open>\<open>[A-Z]\<close>\<close>
  "is_upper c = (c \<in> set ''ABCDEFGHIJKLMNOPQRSTUVWXYZ'')"

definition is_alpha :: "char \<Rightarrow> bool" where
  \<comment> \<open>\<open>[a-z]\<close> under the flag \<open>i\<close>, \<open>[a-zA-Z]\<close>\<close>
  "is_alpha c = (is_lower c \<or> is_upper c)"

definition is_word :: "char \<Rightarrow> bool" where
  \<comment> \<open>\<open>\w\<close>, the class that \<open>\b\<close> is defined by\<close>
  "is_word c = (is_alpha c \<or> is_digit c \<or> c = CHR ''_'')"

definition is_cls :: "char \<Rightarrow> bool" where
  \<comment> \<open>\<open>[0-9a-zA-Z\-_]\<close>\<close>
  "is_cls c = (is_digit c \<or> is_alpha c \<or> c = CHR ''-'' \<or> c = CHR ''_'')"

definition is_word_opt :: "char option \<Rightarrow> bool" where
  \<comment> \<open>the position before the first and after the last character counts as a non-word\<close>
  "is_word_opt p = (case p of None \<Rightarrow> False | Some c \<Rightarrow> is_word c)"

definition word_boundary :: "char option \<Rightarrow> char option \<Rightarrow> bool" where
  \<comment> \<open>\<open>\b\<close> between the previous and the next character\<close>
  "word_boundary p n = (is_word_opt p \<noteq> is_word_opt n)"

definition first_char :: "string \<Rightarrow> char option" where
  "first_char s = (case s of [] \<Rightarrow> None | c # _ \<Rightarrow> Some c)"

definition last_char :: "string \<Rightarrow> char option" where
  "last_char s = (if s = [] then None else Some (last s))"

definition lower_ascii :: "char \<Rightarrow> char" where
  \<comment> \<open>case folding of the flag \<open>i\<close> on ASCII letters\<close>
  "lower_ascii c = (if is_upper c then char_of (of_char c + (32::nat)) else c)"

definition starts_with :: "string \<Rightarrow> string \<Rightarrow> bool" where
  "starts_with p s = (take (length p) s = p)"

definition starts_with_ci :: "string \<Rightarrow> string \<Rightarrow> bool" where
  "starts_with_ci p s = (map lower_ascii (take (length p) s) = map lower_ascii p)"

section \<open>The token generator\<close>

definition digits34 :: string where
  "digits34 = ''0123456789abcdefghijklmnopqrstuvwx''"

text \<open>The counter and the count of replacements are JavaScript numbers, doubles. Their
  values are non-negative integers, modelled as \<open>nat\<close>. The integers up to
  \<open>2^53 = 9007199254740992\<close> are exact doubles, and \<open>counter++\<close> adds one below
  \<open>2^53\<close>. At \<open>2^53\<close> the sum \<open>2^53 + 1\<close> is not a
  double and rounds back to \<open>2^53\<close>: the increment leaves the counter as it is. Between
  \<open>2^53\<close> and \<open>2^54\<close> the doubles are the even integers and the sum lies half way
  between two of them; it rounds to the one with the even significand. From \<open>2^54\<close> on
  the sum rounds back to the counter.\<close>

definition js_incr :: "nat \<Rightarrow> nat" where
  \<comment> \<open>\<open>this.counter++\<close>, \<open>replacements.count++\<close>\<close>
  "js_incr c =
     (if c < 9007199254740992 then c + 1
      else if c < 18014398509481984 \<and> odd (c div 2) then c + 2
      else c)"

text \<open>\<open>Number.prototype.toString(34)\<close> on a non-negative integer: its digits in base 34.
  (Above \<open>2^53\<close> an engine may round the low digits; the properties proved below read
  the renderings of the integers up to \<open>2^53\<close> only.)\<close>

fun toString34 :: "nat \<Rightarrow> string" where
  "toString34 n = (if n < 34 then [digits34 ! n]
                   else toString34 (n div 34) @ [digits34 ! (n mod 34)])"

declare toString34.simps [simp del]

text \<open>\<open>/^([a-z_]|-[a-z_-])[a-z\d_-]*$/i.test(className)\<close>\<close>

definition is_ident_char :: "char \<Rightarrow> bool" where
  \<comment> \<open>\<open>[a-z\d_-]\<close> under the flag \<open>i\<close>\<close>
  "is_ident_char c = (is_alpha c \<or> is_digit c \<or> c = CHR ''_'' \<or> c = CHR ''-'')"

fun valid_class_name :: "string \<Rightarrow> bool" where
  "valid_class_name [] = False"
| "valid_class_name (c # cs) =
     (if is_alpha c \<or> c = CHR ''_'' then list_all is_ident_char cs
      else if c = CHR ''-'' then
        (case cs of [] \<Rightarrow> False
         | d # ds \<Rightarrow> (is_alpha d \<or> d = CHR ''_'' \<or> d = CHR ''-'') \<and> list_all is_ident_char ds)
      else False)"

text \<open>\<open>this.cssText.search(new RegExp('\\b\\.' + className + '\\b', 'gi')) > -1\<close>:
  the class name is literal text there, since it has passed the test above.\<close>

definition collision_at :: "string \<Rightarrow> char option \<Rightarrow> string \<Rightarrow> bool" where
  "collision_at className prev s =
     (case s of [] \<Rightarrow> False
      | c # cs \<Rightarrow>
          word_boundary prev (Some c) \<and> c = CHR ''.'' \<and>
          length className \<le> length cs \<and> starts_with_ci className cs \<and>
          word_boundary (if className = [] then Some c else Some (last (take (length className) cs)))
                        (first_char (drop (length className) cs)))"

fun search_from :: "string \<Rightarrow> char option \<Rightarrow> string \<Rightarrow> bool" where
  "search_from className prev [] = False"
| "search_from className prev (c # cs) =
     (collision_at className prev (c # cs) \<or> search_from className (Some c) cs)"

definition collides :: "string \<Rightarrow> string \<Rightarrow> bool" where
  "collides cssText className = search_from className None cssText"

text \<open>The loop of \<open>succ\<close>, from the counter value \<open>c\<close>: the token and the counter after
  the final \<open>this.counter++\<close>. The loop may run for ever; then there is no result.\<close>

partial_function (option) succ_loop :: "string \<Rightarrow> nat \<Rightarrow> (string \<times> nat) option" where
  "succ_loop css c =
     (let className = toString34 c in
      if \<not> valid_class_name className then succ_loop css (js_incr c)
      else if collides css className then succ_loop css (js_incr c)
      else Some (className, js_incr c))"

declare succ_loop.simps [code]

text \<open>The legacy build (\<open>src/lib/replacer.js\<close>) has another \<open>succ\<close>: its loop has no
  \<open>break\<close> and no validity test, and the counter only moves on a collision.\<close>

partial_function (option) legacy_succ_loop :: "string \<Rightarrow> nat \<Rightarrow> (string \<times> nat) option" where
  "legacy_succ_loop css c =
     (if collides css (toString34 c) then legacy_succ_loop css (js_incr c)
      else legacy_succ_loop css c)"

section \<open>String and array primitives of JavaScript\<close>

fun join_sp :: "string list \<Rightarrow> string" where
  \<comment> \<open>\<open>Array.prototype.join(" ")\<close>\<close>
  "join_sp [] = []"
| "join_sp [x] = x"
| "join_sp (x # y # ys) = x @ CHR '' '' # join_sp (y # ys)"

fun split_sp :: "string \<Rightarrow> string list" where
  \<comment> \<open>\<open>String.prototype.split(" ")\<close>\<close>
  "split_sp [] = [[]]"
| "split_sp (c # cs) =
     (if c = CHR '' '' then [] # split_sp cs
      else (case split_sp cs of [] \<Rightarrow> [[c]] | h # t \<Rightarrow> (c # h) # t))"

definition remove_dots :: "string \<Rightarrow> string" where
  \<comment> \<open>\<open>.replace(/\./g, "")\<close>\<close>
  "remove_dots s = filter (\<lambda>c. c \<noteq> CHR ''.'') s"

fun contains :: "string \<Rightarrow> string \<Rightarrow> bool" where
  \<comment> \<open>\<open>s.indexOf(p) > -1\<close>, and \<open>/p/.test(s)\<close> for a literal \<open>p\<close>\<close>
  "contains p [] = (p = [])"
| "contains p (c # cs) = (starts_with p (c # cs) \<or> contains p cs)"

fun index_from :: "'a \<Rightarrow> nat \<Rightarrow> 'a list \<Rightarrow> int" where
  "index_from x i [] = - 1"
| "index_from x i (y # ys) = (if y = x then int i else index_from x (Suc i) ys)"

definition indexOf :: "'a list \<Rightarrow> 'a \<Rightarrow> int" where
  \<comment> \<open>\<open>Array.prototype.indexOf\<close>\<close>
  "indexOf xs x = index_from x 0 xs"

fun filter_pos :: "('a \<Rightarrow> nat \<Rightarrow> bool) \<Rightarrow> nat \<Rightarrow> 'a list \<Rightarrow> 'a list" where
  \<comment> \<open>\<open>Array.prototype.filter\<close> with a callback that also reads the position\<close>
  "filter_pos p i [] = []"
| "filter_pos p i (x # xs) =
     (if p x i then x # filter_pos p (Suc i) xs else filter_pos p (Suc i) xs)"

text \<open>\<open>Array.prototype.sort(cmp)\<close>: the stable sort that ECMAScript specifies, as an
  insertion sort. An element goes before the first one it does not compare greater than.\<close>

fun insort_by :: "('a \<Rightarrow> 'a \<Rightarrow> int) \<Rightarrow> 'a \<Rightarrow> 'a list \<Rightarrow> 'a list" where
  "insort_by cmp x [] = [x]"
| "insort_by cmp x (y # ys) =
     (if cmp x y \<le> 0 then x # y # ys else y # insort_by cmp x ys)"

definition sort_by :: "('a \<Rightarrow> 'a \<Rightarrow> int) \<Rightarrow> 'a list \<Rightarrow> 'a list" where
  "sort_by cmp xs = foldr (insort_by cmp) xs []"

section \<open>The class patterns and matching\<close>

text \<open>A pattern that holds text of the user is given by what it does: at a position of a
  text, from the text before the position and the text from the position on, the length of
  the match that starts there and the strings of its capture groups, or no match. (A group
  that did not take part, \<open>undefined\<close> in the result array, is written as the empty
  string: the program only tests the elements of a result array for truthiness and joins
  them, and both read \<open>undefined\<close> like the empty string.) The flags \<open>i\<close>, \<open>m\<close>,
  \<open>s\<close> and \<open>u\<close> are part of the matcher, the flag \<open>g\<close> is kept beside it; the flag
  \<open>y\<close> is not covered.\<close>

type_synonym exec = "string \<Rightarrow> string \<Rightarrow> (nat \<times> string list) option"

datatype regexp =
    CssCls                    \<comment> \<open>\<open>new RegExp("\\.[0-9a-zA-Z\\-_]+", "g")\<close>\<close>
  | CssPrefixCls string       \<comment> \<open>\<open>new RegExp("\\.(?:" + prefix + "){1}[0-9a-zA-Z\\-_]+", "g")\<close>\<close>
  | JsPrefixCls string        \<comment> \<open>\<open>new RegExp("(\\b" + prefix + "[0-9a-zA-Z\-_]+)", "g")\<close>\<close>
  | JsClasses "string list"   \<comment> \<open>\<open>new RegExp(this.classes.join("|"), "g")\<close>\<close>
  | Given bool exec           \<comment> \<open>any other pattern: whether it is global, and its matcher\<close>

definition is_global :: "regexp \<Rightarrow> bool" where
  "is_global rx = (case rx of Given g e \<Rightarrow> g | _ \<Rightarrow> True)"

definition cls_run :: "string \<Rightarrow> nat" where
  \<comment> \<open>how far the greedy \<open>[0-9a-zA-Z\-_]+\<close> reaches\<close>
  "cls_run s = length (takeWhile is_cls s)"

text \<open>The length of the match that starts at the current position, if there is one;
  \<open>before\<close> is the text before the position. The prefix of \<open>CssPrefixCls\<close> and
  \<open>JsPrefixCls\<close> is made of class-name characters, which stand for themselves in a
  pattern, and so are the class names of \<open>JsClasses\<close>, which the default pattern has
  extracted. The alternation tries the class names in catalog order; joined from an empty
  catalog the pattern is empty and matches the empty string.\<close>

fun match_at :: "regexp \<Rightarrow> string \<Rightarrow> string \<Rightarrow> nat option" where
  "match_at CssCls before s =
     (case s of [] \<Rightarrow> None
      | c # cs \<Rightarrow> if c = CHR ''.'' \<and> 0 < cls_run cs then Some (1 + cls_run cs) else None)"
| "match_at (CssPrefixCls p) before s =
     (case s of [] \<Rightarrow> None
      | c # cs \<Rightarrow>
          if c = CHR ''.'' \<and> starts_with p cs \<and> 0 < cls_run (drop (length p) cs)
          then Some (1 + length p + cls_run (drop (length p) cs)) else None)"
| "match_at (JsPrefixCls p) before s =
     (if word_boundary (last_char before) (first_char s) \<and> starts_with p s \<and>
         0 < cls_run (drop (length p) s)
      then Some (length p + cls_run (drop (length p) s)) else None)"
| "match_at (JsClasses cs) before s =
     (case find (\<lambda>a. starts_with a s) (if cs = [] then [[]] else cs) of
        None \<Rightarrow> None
      | Some a \<Rightarrow> Some (length a))"
| "match_at (Given g e) before s = map_option fst (e before s)"

definition captures_at :: "regexp \<Rightarrow> string \<Rightarrow> string \<Rightarrow> string list" where
  \<comment> \<open>the capture groups of the match at a position; only a pattern that is not global
     shows them\<close>
  "captures_at rx before s =
     (case rx of Given g e \<Rightarrow> (case e before s of None \<Rightarrow> [] | Some (n, caps) \<Rightarrow> caps)
      | _ \<Rightarrow> [])"

type_synonym segments = "(string \<times> string) list \<times> string"

definition skip_char :: "char \<Rightarrow> segments \<Rightarrow> segments" where
  "skip_char c sg =
     (case sg of ([], rest) \<Rightarrow> ([], c # rest)
      | ((pre, m) # segs, rest) \<Rightarrow> ((c # pre, m) # segs, rest))"

text \<open>All matches of a pattern, left to right, as a global search finds them: each with the
  unmatched text before it, and the text after the last match. After an empty match the
  search moves on by one character.\<close>

function rx_scan :: "regexp \<Rightarrow> string \<Rightarrow> string \<Rightarrow> segments" where
  "rx_scan rx before [] =
     (case match_at rx before [] of None \<Rightarrow> ([], []) | Some n \<Rightarrow> ([([], [])], []))"
| "rx_scan rx before (c # cs) =
     (case match_at rx before (c # cs) of
        None \<Rightarrow> skip_char c (rx_scan rx (before @ [c]) cs)
      | Some n \<Rightarrow>
          if n = 0 then
            (case skip_char c (rx_scan rx (before @ [c]) cs) of
               (segs, rest) \<Rightarrow> (([], []) # segs, rest))
          else
            (case rx_scan rx (before @ take n (c # cs)) (drop n (c # cs)) of
               (segs, rest) \<Rightarrow> (([], take n (c # cs)) # segs, rest)))"
  by pat_completeness auto
termination
  by (relation "measure (\<lambda>(rx, before, s). length s)") auto

definition str_match :: "regexp \<Rightarrow> string \<Rightarrow> string list" where
  \<comment> \<open>\<open>String.prototype.match\<close>; \<open>null\<close> is the empty list. A global pattern gives all
     its matches; a pattern that is not global gives its first match, followed by the
     capture groups of that match.\<close>
  "str_match rx s =
     (if is_global rx then map snd (fst (rx_scan rx [] s))
      else (case fst (rx_scan rx [] s) of [] \<Rightarrow> []
            | (pre, m) # _ \<Rightarrow> m # captures_at rx pre (drop (length pre) s)))"

definition replace_scan :: "regexp \<Rightarrow> string \<Rightarrow> segments" where
  \<comment> \<open>the matches that \<open>String.prototype.replace\<close> replaces: all of them for a global
     pattern, the first one only otherwise\<close>
  "replace_scan rx s =
     (if is_global rx then rx_scan rx [] s
      else (case fst (rx_scan rx [] s) of [] \<Rightarrow> ([], s)
            | (pre, m) # _ \<Rightarrow> ([(pre, m)], drop (length pre + length m) s)))"

fun replace_segs ::
  "(string \<Rightarrow> 's \<Rightarrow> (string \<times> 's) option) \<Rightarrow> (string \<times> string) list \<Rightarrow> 's \<Rightarrow> (string \<times> 's) option" where
  "replace_segs f [] st = Some ([], st)"
| "replace_segs f ((pre, m) # segs) st =
     (case f m st of None \<Rightarrow> None
      | Some (r, st1) \<Rightarrow>
          (case replace_segs f segs st1 of None \<Rightarrow> None
           | Some (out, st2) \<Rightarrow> Some (pre @ r @ out, st2)))"

definition str_replace ::
  "regexp \<Rightarrow> (string \<Rightarrow> 's \<Rightarrow> (string \<times> 's) option) \<Rightarrow> string \<Rightarrow> 's \<Rightarrow> (string \<times> 's) option" where
  \<comment> \<open>\<open>String.prototype.replace\<close> with a callback that reads the matched text and may
     change the state of the replacer\<close>
  "str_replace rx f s st =
     (case replace_scan rx s of
        (segs, rest) \<Rightarrow>
          (case replace_segs f segs st of None \<Rightarrow> None
           | Some (out, st') \<Rightarrow> Some (out @ rest, st')))"

section \<open>The documents and the state of a replacer\<close>

text \<open>The parsers are external: a stylesheet is the rule list that \<open>css.parse\<close> returns
  (a rule's declarations are carried along as text), and a script is the list of its nodes
  in the order \<open>estraverse.traverse\<close> enters them.\<close>

datatype css_rule =
    Rule "string list" string     \<comment> \<open>\<open>type == "rule"\<close>: selectors, declarations\<close>
  | Media "css_rule list"         \<comment> \<open>\<open>type == "media"\<close>: the nested rules\<close>
  | OtherRule                     \<comment> \<open>comment, charset, keyframes, font-face, ...\<close>

datatype js_node =
    StringLiteral string          \<comment> \<open>\<open>type == "Literal"\<close> with a string value\<close>
  | OtherNode

text \<open>The hook \<open>config.replace\<close> is a function of the user, called as
  \<open>replace.call(this, node, parent)\<close> when the traversal enters a node. It is given by
  what it does: from the position of the node in the traversal, the node, and the
  replacement state of the replacer (\<open>this.counter\<close>, \<open>this.key\<close>,
  \<open>this.replacements.count\<close>, \<open>this.replacements.items\<close>), whether it returns
  \<open>false\<close>, the node as it leaves it, and the replacement state as it leaves it; or
  nothing, when it throws or does not return. What a hook writes to other fields of the
  replacer or to other nodes is not covered.\<close>

record registry =
  reg_counter :: nat
  reg_key :: string
  reg_count :: nat
  reg_items :: "string \<rightharpoonup> string"

type_synonym hook = "nat \<Rightarrow> js_node \<Rightarrow> registry \<Rightarrow> (bool \<times> js_node \<times> registry) option"

definition emptyFn :: hook where
  \<comment> \<open>\<open>emptyFn() {}\<close>: it returns \<open>undefined\<close>\<close>
  "emptyFn i node r = Some (False, node, r)"

text \<open>The configuration. \<open>cfg_prefix_css\<close> and \<open>cfg_prefix_js\<close> are read for a prefix
  that has a character outside \<open>[0-9a-zA-Z\-_]\<close>: such a prefix is pattern text, and the
  two fields are the matchers of the patterns that \<open>generateCssClsRegExp\<close> and
  \<open>generateJsClsRegExp\<close> build from it, \<open>None\<close> when \<open>new RegExp\<close> throws a
  \<open>SyntaxError\<close>. \<open>cfg_regexp\<close> is \<open>config.regexp\<close>, a \<open>RegExp\<close> with its flag
  \<open>g\<close> and its matcher, and \<open>cfg_regexp_css\<close> is the matcher of the pattern that
  \<open>generateCssClsRegExp\<close> builds from its text.\<close>

record config =
  cfg_prefix :: "string option"            \<comment> \<open>\<open>config.prefix\<close>, \<open>null\<close> by default\<close>
  cfg_prefix_css :: "exec option"
  cfg_prefix_js :: "exec option"
  cfg_regexp :: "(bool \<times> exec) option"     \<comment> \<open>\<open>config.regexp\<close>, \<open>null\<close> by default\<close>
  cfg_regexp_css :: "exec option"
  cfg_replace :: hook                      \<comment> \<open>\<open>config.replace\<close>, \<open>emptyFn\<close> by default\<close>
  cfg_replaceAll :: bool                   \<comment> \<open>\<open>config.replaceAll\<close>, \<open>false\<close> by default\<close>

record replacer =
  counter :: nat
  config :: config
  key :: string
  count :: nat                         \<comment> \<open>\<open>replacements.count\<close>\<close>
  items :: "string \<rightharpoonup> string"        \<comment> \<open>the own properties of \<open>replacements.items\<close>\<close>
  cssText :: string
  cssAst :: "css_rule list"
  jsAst :: "js_node list"
  rules :: "css_rule list"
  classes :: "string list"

definition default_config :: config where
  "default_config =
     \<lparr>cfg_prefix = None, cfg_prefix_css = None, cfg_prefix_js = None, cfg_regexp = None,
      cfg_regexp_css = None, cfg_replace = emptyFn, cfg_replaceAll = False\<rparr>"

definition constructor :: "config \<Rightarrow> replacer" where
  "constructor cfg =
     \<lparr>counter = 0, config = cfg, key = ''_'', count = 0, items = Map.empty,
      cssText = [], cssAst = [], jsAst = [], rules = [], classes = []\<rparr>"

definition registry_of :: "replacer \<Rightarrow> registry" where
  "registry_of st =
     \<lparr>reg_counter = counter st, reg_key = key st, reg_count = count st, reg_items = items st\<rparr>"

definition put_registry :: "registry \<Rightarrow> replacer \<Rightarrow> replacer" where
  "put_registry r st =
     st\<lparr>counter := reg_counter r, key := reg_key r, count := reg_count r, items := reg_items r\<rparr>"

subsection \<open>Reading \<open>replacements.items\<close>\<close>

text \<open>\<open>replacements.items\<close> is an object literal, so reading a key that is not an own
  property falls through to \<open>Object.prototype\<close>.\<close>

datatype js_value = Undefined | Str string | Inherited string

definition object_prototype_names :: "string list" where
  "object_prototype_names =
     [''constructor'', ''toString'', ''toLocaleString'', ''valueOf'', ''hasOwnProperty'',
      ''isPrototypeOf'', ''propertyIsEnumerable'', ''__proto__'', ''__defineGetter__'',
      ''__defineSetter__'', ''__lookupGetter__'', ''__lookupSetter__'']"

definition items_get :: "(string \<rightharpoonup> string) \<Rightarrow> string \<Rightarrow> js_value" where
  "items_get m k =
     (case m k of Some v \<Rightarrow> Str v
      | None \<Rightarrow> if k \<in> set object_prototype_names then Inherited k else Undefined)"

fun truthy :: "js_value \<Rightarrow> bool" where
  "truthy Undefined = False"
| "truthy (Str v) = (v \<noteq> [])"
| "truthy (Inherited k) = True"

fun to_string :: "js_value \<Rightarrow> string" where
  "to_string Undefined = ''undefined''"
| "to_string (Str v) = v"
| "to_string (Inherited k) =
     (if k = ''__proto__'' then ''[object Object]''
      else ''function '' @ (if k = ''constructor'' then ''Object'' else k) @ ''() { [native code] }'')"

section \<open>The operations of the replacer\<close>

text \<open>An operation has the result \<open>None\<close> when the code does not return: \<open>succ\<close> loops
  for ever, \<open>new RegExp\<close> throws, or the hook fails.\<close>

definition succ :: "replacer \<Rightarrow> (string \<times> replacer) option" where
  "succ st =
     (case succ_loop (cssText st) (counter st) of None \<Rightarrow> None
      | Some (className, c) \<Rightarrow> Some (className, st\<lparr>counter := c\<rparr>))"

definition truthy_str :: "string option \<Rightarrow> bool" where
  \<comment> \<open>\<open>if (config.prefix)\<close>: neither \<open>null\<close> nor the empty string\<close>
  "truthy_str p = (case p of None \<Rightarrow> False | Some s \<Rightarrow> s \<noteq> [])"

text \<open>With \<open>config.regexp\<close> the pattern for the stylesheet is
  \<open>new RegExp(config.regexp.toString().replace("\/", "\/."))\<close>: the text
  \<open>/source/flags\<close> with a dot put after its first slash, compiled without flags, so the
  pattern is not global.\<close>

definition generateCssClsRegExp :: "config \<Rightarrow> regexp option" where
  "generateCssClsRegExp cfg =
     (if truthy_str (cfg_prefix cfg) then
        (if list_all is_cls (the (cfg_prefix cfg)) then Some (CssPrefixCls (the (cfg_prefix cfg)))
         else map_option (Given True) (cfg_prefix_css cfg))
      else
        (case cfg_regexp cfg of
           Some r \<Rightarrow> map_option (Given False) (cfg_regexp_css cfg)
         | None \<Rightarrow> Some CssCls))"

definition generateJsClsRegExp :: "config \<Rightarrow> string list \<Rightarrow> regexp option" where
  "generateJsClsRegExp cfg cls =
     (if truthy_str (cfg_prefix cfg) then
        (if list_all is_cls (the (cfg_prefix cfg)) then Some (JsPrefixCls (the (cfg_prefix cfg)))
         else map_option (Given True) (cfg_prefix_js cfg))
      else
        (case cfg_regexp cfg of
           Some (g, e) \<Rightarrow> Some (Given g e)
         | None \<Rightarrow> Some (JsClasses cls)))"

subsection \<open>parseCssRules\<close>

fun extract_rule :: "regexp \<Rightarrow> css_rule \<Rightarrow> string list" where
  "extract_rule rx (Rule sels decls) =
     (let selectors = str_match rx (join_sp sels) in
      if selectors = [] then [] else split_sp (remove_dots (join_sp selectors)))"
| "extract_rule rx (Media rs) = []"
| "extract_rule rx OtherRule = []"

fun extract_classes :: "regexp \<Rightarrow> css_rule list \<Rightarrow> string list \<Rightarrow> string list" where
  "extract_classes rx [] cls = cls"
| "extract_classes rx (r # rs) cls = extract_classes rx rs (cls @ extract_rule rx r)"

definition cmp_length :: "string \<Rightarrow> string \<Rightarrow> int" where
  \<comment> \<open>\<open>function (a, b) { return b.length - a.length; }\<close>\<close>
  "cmp_length a b = int (length b) - int (length a)"

definition parseCssRules :: "replacer \<Rightarrow> replacer option" where
  "parseCssRules st =
     (case generateCssClsRegExp (config st) of None \<Rightarrow> None
      | Some regexp \<Rightarrow>
          (let sorted = sort_by cmp_length (extract_classes regexp (cssAst st) [])
           in Some (st\<lparr>rules := cssAst st,
                       classes := filter_pos (\<lambda>cls pos. indexOf sorted cls = int pos) 0 sorted\<rparr>)))"

subsection \<open>replaceItem, replace and replaceAll\<close>

fun register_matches :: "string list \<Rightarrow> string \<Rightarrow> replacer \<Rightarrow> (string \<times> replacer) option" where
  \<comment> \<open>the loop over \<open>matches\<close>; it ends at an empty element, which is falsy\<close>
  "register_matches [] k st = Some (k, st)"
| "register_matches (m # ms) k st =
     (if m = [] then Some (k, st)
      else if \<not> truthy (items_get (items st) m) then
        (case succ (st\<lparr>items := (items st)(m \<mapsto> k)\<rparr>) of None \<Rightarrow> None
         | Some (k', st') \<Rightarrow> register_matches ms k' st')
      else register_matches ms k st)"

definition count_callback :: "string \<Rightarrow> replacer \<Rightarrow> (string \<times> replacer) option" where
  \<comment> \<open>\<open>function (a) { replacements.count++; return replacements.items[a]; }\<close>\<close>
  "count_callback a st = Some (to_string (items_get (items st) a), st\<lparr>count := js_incr (count st)\<rparr>)"

definition replaceItem :: "string \<Rightarrow> replacer \<Rightarrow> (string \<times> replacer) option" where
  "replaceItem v st =
     (case generateJsClsRegExp (config st) (classes st) of None \<Rightarrow> None
      | Some regexp \<Rightarrow>
          (let matches = str_match regexp v
           in if matches = [] then Some (v, st)
              else (case register_matches matches (key st) st of None \<Rightarrow> None
                    | Some (k, st1) \<Rightarrow>
                        (case str_replace regexp count_callback v st1 of None \<Rightarrow> None
                         | Some (v', st2) \<Rightarrow> Some (v', st2\<lparr>key := k\<rparr>)))))"

definition enter :: "hook \<Rightarrow> nat \<Rightarrow> js_node \<Rightarrow> replacer \<Rightarrow> (js_node \<times> replacer) option" where
  \<comment> \<open>the callback \<open>enter\<close> of the traversal, on the node at position \<open>i\<close>\<close>
  "enter replace_hook i node st =
     (case replace_hook i node (registry_of st) of None \<Rightarrow> None
      | Some (returned_false, node1, r) \<Rightarrow>
          if returned_false then Some (node1, put_registry r st)
          else
            (case node1 of
               OtherNode \<Rightarrow> Some (node1, put_registry r st)
             | StringLiteral v \<Rightarrow>
                 (case replaceItem v (put_registry r st) of None \<Rightarrow> None
                  | Some (v', st') \<Rightarrow> Some (StringLiteral v', st'))))"

fun traverse :: "hook \<Rightarrow> nat \<Rightarrow> js_node list \<Rightarrow> replacer \<Rightarrow> (js_node list \<times> replacer) option" where
  "traverse replace_hook i [] st = Some ([], st)"
| "traverse replace_hook i (node # ns) st =
     (case enter replace_hook i node st of None \<Rightarrow> None
      | Some (node', st1) \<Rightarrow>
          (case traverse replace_hook (Suc i) ns st1 of None \<Rightarrow> None
           | Some (ns', st2) \<Rightarrow> Some (node' # ns', st2)))"

fun replaceAll_loop :: "string list \<Rightarrow> string \<Rightarrow> replacer \<Rightarrow> replacer option" where
  "replaceAll_loop [] k st = Some st"
| "replaceAll_loop (cls # rest) k st =
     (if \<not> truthy (items_get (items st) cls) then
        (case succ (st\<lparr>items := (items st)(cls \<mapsto> k)\<rparr>) of None \<Rightarrow> None
         | Some (k', st') \<Rightarrow> replaceAll_loop rest k' (st'\<lparr>count := js_incr (count st')\<rparr>))
      else replaceAll_loop rest k st)"

definition replaceAll :: "replacer \<Rightarrow> replacer option" where
  "replaceAll st = replaceAll_loop (classes st) (key st) st"

definition replace_traverse :: "replacer \<Rightarrow> replacer option" where
  \<comment> \<open>the call of \<open>estraverse.traverse\<close> in \<open>replace\<close>, with the hook \<open>config.replace\<close>\<close>
  "replace_traverse st =
     (case traverse (cfg_replace (config st)) 0 (jsAst st) st of None \<Rightarrow> None
      | Some (ns, st') \<Rightarrow> Some (st'\<lparr>jsAst := ns\<rparr>))"

definition replace :: "replacer \<Rightarrow> replacer option" where
  "replace st =
     (case replace_traverse st of None \<Rightarrow> None
      | Some st' \<Rightarrow> if cfg_replaceAll (config st') then replaceAll st' else Some st')"

definition openFiles :: "replacer \<Rightarrow> string \<Rightarrow> replacer" where
  \<comment> \<open>\<open>css_file\<close> is what \<open>fs.readFileSync(this.config.cssIn, "utf8")\<close> returns; the text
     of the script is only read by its parser\<close>
  "openFiles st css_file = st\<lparr>cssText := css_file\<rparr>"

definition initFilesAst :: "replacer \<Rightarrow> css_rule list \<Rightarrow> js_node list \<Rightarrow> replacer" where
  \<comment> \<open>\<open>css_parsed\<close> is the rule list of \<open>css.parse(this.cssText)\<close>, \<open>js_parsed\<close> the nodes of
     \<open>esprima.parse(this.jsText)\<close>\<close>
  "initFilesAst st css_parsed js_parsed = st\<lparr>cssAst := css_parsed, jsAst := js_parsed\<rparr>"

definition run :: "replacer \<Rightarrow> string \<Rightarrow> css_rule list \<Rightarrow> js_node list \<Rightarrow> replacer option" where
  \<comment> \<open>the last statement of \<open>run\<close> writes the table to the file
     \<open>config.replacementsOutput\<close>, if there is one; it leaves the replacer as it is\<close>
  "run st css_file css_parsed js_parsed =
     (case parseCssRules (initFilesAst (openFiles st css_file) css_parsed js_parsed) of
        None \<Rightarrow> None
      | Some st' \<Rightarrow> replace st')"

subsection \<open>generateCss\<close>

definition css_callback :: "bool \<Rightarrow> string \<Rightarrow> replacer \<Rightarrow> (string \<times> replacer) option" where
  \<comment> \<open>the callback of \<open>selector.replace\<close>; \<open>has_not\<close> is
     \<open>rule.selectors.join(" ").indexOf(':not') > -1\<close>\<close>
  "css_callback has_not a st =
     (let clazz = remove1 CHR ''.'' a in
      if \<not> truthy (items_get (items st) clazz) \<and> has_not then
        (case succ st of None \<Rightarrow> None
         | Some (tok, st') \<Rightarrow>
             Some (CHR ''.'' # to_string (items_get ((items st')(clazz \<mapsto> tok)) clazz),
                   st'\<lparr>items := (items st')(clazz \<mapsto> tok)\<rparr>))
      else Some (CHR ''.'' # to_string (items_get (items st) clazz), st))"

fun rewrite_selectors ::
  "regexp \<Rightarrow> bool \<Rightarrow> string list \<Rightarrow> replacer \<Rightarrow> (string list \<times> replacer) option" where
  \<comment> \<open>the loop over \<open>rule.selectors\<close>, which ends at an empty selector; the result is
     \<open>newSelectors\<close>\<close>
  "rewrite_selectors rx has_not [] st = Some ([], st)"
| "rewrite_selectors rx has_not (selector # rest) st =
     (if selector = [] then Some ([], st)
      else (case str_replace rx (css_callback has_not) selector st of None \<Rightarrow> None
            | Some (selector', st1) \<Rightarrow>
                (case rewrite_selectors rx has_not rest st1 of None \<Rightarrow> None
                 | Some (newSelectors, st2) \<Rightarrow>
                     Some (if contains ''undefined'' selector' then newSelectors
                           else selector' # newSelectors, st2))))"

fun rewrite_rule :: "regexp \<Rightarrow> css_rule \<Rightarrow> replacer \<Rightarrow> (css_rule \<times> replacer) option" where
  \<comment> \<open>the body of both loops for one rule; a rule of another type is passed over\<close>
  "rewrite_rule rx (Rule sels decls) st =
     (case rewrite_selectors rx (contains '':not'' (join_sp sels)) sels st of None \<Rightarrow> None
      | Some (newSelectors, st') \<Rightarrow>
          Some (Rule (if length newSelectors = length sels then newSelectors else []) decls, st'))"
| "rewrite_rule rx r st = Some (r, st)"

fun rewrite_media_rules ::
  "regexp \<Rightarrow> css_rule list \<Rightarrow> replacer \<Rightarrow> (css_rule list \<times> replacer) option" where
  "rewrite_media_rules rx [] st = Some ([], st)"
| "rewrite_media_rules rx (r # rs) st =
     (case rewrite_rule rx r st of None \<Rightarrow> None
      | Some (r', st1) \<Rightarrow>
          (case rewrite_media_rules rx rs st1 of None \<Rightarrow> None
           | Some (rs', st2) \<Rightarrow> Some (r' # rs', st2)))"

fun rewrite_rules ::
  "regexp \<Rightarrow> css_rule list \<Rightarrow> replacer \<Rightarrow> (css_rule list \<times> replacer) option" where
  "rewrite_rules rx [] st = Some ([], st)"
| "rewrite_rules rx (Media nested # rs) st =
     (case rewrite_media_rules rx nested st of None \<Rightarrow> None
      | Some (nested', st1) \<Rightarrow>
          (case rewrite_rules rx rs st1 of None \<Rightarrow> None
           | Some (rs', st2) \<Rightarrow> Some (Media nested' # rs', st2)))"
| "rewrite_rules rx (r # rs) st =
     (case rewrite_rule rx r st of None \<Rightarrow> None
      | Some (r', st1) \<Rightarrow>
          (case rewrite_rules rx rs st1 of None \<Rightarrow> None
           | Some (rs', st2) \<Rightarrow> Some (r' # rs', st2)))"

definition generateCss :: "replacer \<Rightarrow> replacer option" where
  \<comment> \<open>the rules are rewritten in place: \<open>this.rules\<close> is the rule array of \<open>this.cssAst\<close>.
     The text returned is \<open>css.stringify(this.cssAst)\<close>.\<close>
  "generateCss st =
     (case generateCssClsRegExp (config st) of None \<Rightarrow> None
      | Some regexp \<Rightarrow>
          (case rewrite_rules regexp (rules st) st of None \<Rightarrow> None
           | Some (rs, st') \<Rightarrow> Some (st'\<lparr>rules := rs, cssAst := rs\<rparr>)))"

definition getReplacementsCount :: "replacer \<Rightarrow> nat" where
  "getReplacementsCount st = count st"

section \<open>Notions used to state the properties\<close>

definition accepted :: "string \<Rightarrow> nat \<Rightarrow> bool" where
  \<comment> \<open>the counter values at which the loop of \<open>succ\<close> breaks\<close>
  "accepted css n = (valid_class_name (toString34 n) \<and> \<not> collides css (toString34 n))"

definition token_below :: "nat \<Rightarrow> string \<Rightarrow> bool" where
  \<comment> \<open>the initial key, or the rendering of a counter value already passed\<close>
  "token_below c t = (t = ''_'' \<or> (\<exists>n<c. t = toString34 n))"

definition table_ok :: "replacer \<Rightarrow> bool" where
  \<comment> \<open>the table is injective, its tokens have been generated, and the counter is an
     exact integer\<close>
  "table_ok st =
     (inj_on (items st) (dom (items st)) \<and> (\<forall>t\<in>ran (items st). token_below (counter st) t) \<and>
      counter st \<le> 9007199254740992)"

definition key_ok :: "string \<Rightarrow> replacer \<Rightarrow> bool" where
  \<comment> \<open>the pending key has been generated and is not in the table yet\<close>
  "key_ok k st = (token_below (counter st) k \<and> k \<notin> ran (items st))"

fun keep_first :: "'a list \<Rightarrow> 'a list \<Rightarrow> 'a list" where
  \<comment> \<open>the elements not seen before, in order: duplicates removed, first occurrence kept\<close>
  "keep_first seen [] = []"
| "keep_first seen (x # xs) =
     (if x \<in> set seen then keep_first seen xs else x # keep_first (x # seen) xs)"

fun is_style_rule :: "css_rule \<Rightarrow> bool" where
  "is_style_rule (Rule sels decls) = True"
| "is_style_rule r = False"

subsection \<open>Hooks\<close>

definition hook_keeps_table :: "hook \<Rightarrow> bool" where
  \<comment> \<open>the hook leaves the table, the pending key and the counter as it finds them\<close>
  "hook_keeps_table h =
     (\<forall>i node r returned_false node' r'. h i node r = Some (returned_false, node', r') \<longrightarrow>
        reg_items r' = reg_items r \<and> reg_key r' = reg_key r \<and> reg_counter r' = reg_counter r)"

definition hook_keeps_count :: "hook \<Rightarrow> bool" where
  \<comment> \<open>the hook leaves \<open>replacements.count\<close> as it finds it\<close>
  "hook_keeps_count h =
     (\<forall>i node r returned_false node' r'. h i node r = Some (returned_false, node', r') \<longrightarrow>
        reg_count r' = reg_count r)"

definition pinning_hook :: hook where
  \<comment> \<open>\<open>function (node) { if (node.value === "logo") { this.replacements.items.logo = "a";
     return false; } }\<close>: a hook that gives the class \<open>logo\<close> a name of its own choice\<close>
  "pinning_hook i node r =
     (if node = StringLiteral ''logo''
      then Some (True, node, r\<lparr>reg_items := (reg_items r)(''logo'' \<mapsto> ''a'')\<rparr>)
      else Some (False, node, r))"

definition counting_hook :: hook where
  \<comment> \<open>\<open>function (node) { this.replacements.count++; }\<close>: a hook that counts the nodes\<close>
  "counting_hook i node r = Some (False, node, r\<lparr>reg_count := js_incr (reg_count r)\<rparr>)"

subsection \<open>Occurrences\<close>

definition occurrences :: "regexp \<Rightarrow> string \<Rightarrow> nat" where
  \<comment> \<open>the number of substrings of a text that \<open>String.prototype.replace\<close> replaces\<close>
  "occurrences rx s = length (fst (replace_scan rx s))"

definition literal_occurrences :: "config \<Rightarrow> string list \<Rightarrow> string \<Rightarrow> nat" where
  \<comment> \<open>the number of substrings that \<open>replaceItem\<close> replaces in a string literal\<close>
  "literal_occurrences cfg cls v =
     (case generateJsClsRegExp cfg cls of None \<Rightarrow> 0 | Some rx \<Rightarrow> occurrences rx v)"

fun entered_literals :: "hook \<Rightarrow> nat \<Rightarrow> js_node list \<Rightarrow> replacer \<Rightarrow> string list" where
  \<comment> \<open>the values of the string literals that the traversal hands to \<open>replaceItem\<close>: those
     of the nodes at which the hook does not return \<open>false\<close>, as the hook leaves them\<close>
  "entered_literals h i [] st = []"
| "entered_literals h i (node # ns) st =
     (case h i node (registry_of st) of None \<Rightarrow> []
      | Some (returned_false, node1, r) \<Rightarrow>
          (case enter h i node st of None \<Rightarrow> []
           | Some (node', st1) \<Rightarrow>
               (case node1 of StringLiteral v \<Rightarrow> if returned_false then [] else [v]
                | OtherNode \<Rightarrow> [])
               @ entered_literals h (Suc i) ns st1))"

fun string_literals :: "js_node list \<Rightarrow> string list" where
  "string_literals [] = []"
| "string_literals (StringLiteral v # ns) = v # string_literals ns"
| "string_literals (OtherNode # ns) = string_literals ns"

fun selector_matches :: "regexp \<Rightarrow> css_rule \<Rightarrow> nat" where
  "selector_matches rx (Rule sels decls) =
     sum_list (map (occurrences rx) (takeWhile (\<lambda>s. s \<noteq> []) sels))"
| "selector_matches rx r = 0"

fun selector_occurrences :: "regexp \<Rightarrow> css_rule list \<Rightarrow> nat" where
  \<comment> \<open>the number of substrings replaced in the selectors that \<open>generateCss\<close> rewrites\<close>
  "selector_occurrences rx [] = 0"
| "selector_occurrences rx (Media nested # rs) =
     sum_list (map (selector_matches rx) nested) + selector_occurrences rx rs"
| "selector_occurrences rx (r # rs) = selector_matches rx r + selector_occurrences rx rs"

definition unregistered :: "(string \<rightharpoonup> string) \<Rightarrow> string list \<Rightarrow> string list" where
  \<comment> \<open>the class names for which \<open>!replacements.items[cls]\<close> holds\<close>
  "unregistered m cls = filter (\<lambda>c. \<not> truthy (items_get m c)) cls"

subsection \<open>Rewriting selectors\<close>

fun rewrite_all ::
  "regexp \<Rightarrow> bool \<Rightarrow> string list \<Rightarrow> replacer \<Rightarrow> (string list \<times> replacer) option" where
  \<comment> \<open>the values that \<open>selector\<close> takes after \<open>selector.replace\<close>, one per selector\<close>
  "rewrite_all rx has_not [] st = Some ([], st)"
| "rewrite_all rx has_not (selector # rest) st =
     (case str_replace rx (css_callback has_not) selector st of None \<Rightarrow> None
      | Some (selector', st1) \<Rightarrow>
          (case rewrite_all rx has_not rest st1 of None \<Rightarrow> None
           | Some (out, st2) \<Rightarrow> Some (selector' # out, st2)))"




definition extends :: "replacer \<Rightarrow> replacer \<Rightarrow> bool" where
  \<comment> \<open>a later state of the same run: the table has only grown, by tokens that \<open>succ\<close> has
     given in between, every lookup that gave a value still gives that value, and the count
     is the same\<close>
  "extends st st' =
     (table_ok st' \<and> items st \<subseteq>\<^sub>m items st' \<and> counter st \<le> counter st' \<and>
      (\<forall>k. truthy (items_get (items st) k) \<longrightarrow> items_get (items st') k = items_get (items st) k) \<and>
      (\<forall>k t. items st' k = Some t \<longrightarrow> items st k = None \<longrightarrow>
         (\<exists>n. counter st \<le> n \<and> n < counter st' \<and> accepted (cssText st) n \<and> t = toString34 n)) \<and>
      count st' = count st \<and> config st' = config st \<and> classes st' = classes st \<and>
      cssText st' = cssText st)"

subsection \<open>Two configurations with pattern text of the user\<close>

definition line_end :: "char \<Rightarrow> bool" where
  \<comment> \<open>the characters that \<open>.\<close> does not match\<close>
  "line_end c = (c = CHR 0x0A \<or> c = CHR 0x0D)"

definition x_dot_css :: exec where
  \<comment> \<open>the prefix \<open>"x."\<close>: \<open>new RegExp("\\.(?:x.){1}[0-9a-zA-Z\\-_]+", "g")\<close>\<close>
  "x_dot_css before s =
     (case s of
        c0 # c1 # c2 # rest \<Rightarrow>
          if c0 = CHR ''.'' \<and> c1 = CHR ''x'' \<and> \<not> line_end c2 \<and> 0 < cls_run rest
          then Some (3 + cls_run rest, []) else None
      | _ \<Rightarrow> None)"

definition x_dot_js :: exec where
  \<comment> \<open>the prefix \<open>"x."\<close>: \<open>new RegExp("(\\bx.[0-9a-zA-Z\-_]+)", "g")\<close>\<close>
  "x_dot_js before s =
     (case s of
        c1 # c2 # rest \<Rightarrow>
          if word_boundary (last_char before) (Some c1) \<and> c1 = CHR ''x'' \<and> \<not> line_end c2 \<and>
             0 < cls_run rest
          then Some (2 + cls_run rest, [take (2 + cls_run rest) s]) else None
      | _ \<Rightarrow> None)"

definition d_word :: exec where
  \<comment> \<open>\<open>config.regexp = /d-[a-z]+/g\<close>\<close>
  "d_word before s =
     (if starts_with ''d-'' s \<and> 0 < length (takeWhile is_lower (drop 2 s))
      then Some (2 + length (takeWhile is_lower (drop 2 s)), []) else None)"

definition d_word_css :: exec where
  \<comment> \<open>the pattern built from it for the stylesheet, \<open>new RegExp("/.d-[a-z]+/g")\<close>: a
     slash, any character, the text of the expression, a slash and the letter \<open>g\<close>\<close>
  "d_word_css before s =
     (case s of
        c0 # c1 # rest \<Rightarrow>
          if c0 = CHR ''/'' \<and> \<not> line_end c1 \<and> starts_with ''d-'' rest \<and>
             0 < length (takeWhile is_lower (drop 2 rest)) \<and>
             starts_with ''/g'' (drop (2 + length (takeWhile is_lower (drop 2 rest))) rest)
          then Some (6 + length (takeWhile is_lower (drop 2 rest)), []) else None
      | _ \<Rightarrow> None)"

section \<open>The token generator: renderings, termination\<close>

lemmas char_defs = is_digit_def is_lower_def is_upper_def is_alpha_def is_word_def is_cls_def
  is_word_opt_def word_boundary_def first_char_def last_char_def lower_ascii_def starts_with_def
  starts_with_ci_def is_ident_char_def

lemma toString34_nonempty: "toString34 n \<noteq> []"
  by (subst toString34.simps) simp

lemma digits34_length: "length digits34 = 34"
  by (simp add: digits34_def)

lemma digits34_distinct: "distinct digits34"
  by (simp add: digits34_def)

lemma digit_inj: "i < 34 \<Longrightarrow> j < 34 \<Longrightarrow> digits34 ! i = digits34 ! j \<Longrightarrow> i = j"
  using digits34_distinct digits34_length by (simp add: nth_eq_iff_index_eq)

lemma toString34_length_ge2: "34 \<le> n \<Longrightarrow> 2 \<le> length (toString34 n)"
proof -
  assume h: "34 \<le> n"
  have "toString34 (n div 34) \<noteq> []" by (rule toString34_nonempty)
  then have "1 \<le> length (toString34 (n div 34))" by (cases "toString34 (n div 34)") auto
  with h show ?thesis by (subst toString34.simps) simp
qed

lemma toString34_inj: "toString34 m = toString34 n \<Longrightarrow> m = n"
proof (induction m arbitrary: n rule: toString34.induct)
  case (1 m)
  show ?case
  proof (cases "m < 34")
    case True
    then have lm: "toString34 m = [digits34 ! m]" by (subst toString34.simps) simp
    show ?thesis
    proof (cases "n < 34")
      case True
      then have "toString34 n = [digits34 ! n]" by (subst toString34.simps) simp
      with lm "1.prems" have "digits34 ! m = digits34 ! n" by simp
      with \<open>m < 34\<close> True show ?thesis by (simp add: digit_inj)
    next
      case False
      then have "2 \<le> length (toString34 n)" by (simp add: toString34_length_ge2)
      with lm "1.prems" show ?thesis by simp
    qed
  next
    case False
    then have lm: "toString34 m = toString34 (m div 34) @ [digits34 ! (m mod 34)]"
      by (subst toString34.simps) simp
    show ?thesis
    proof (cases "n < 34")
      case True
      then have "toString34 n = [digits34 ! n]" by (subst toString34.simps) simp
      moreover from False have "2 \<le> length (toString34 m)" by (simp add: toString34_length_ge2)
      ultimately show ?thesis using "1.prems" by simp
    next
      case nf: False
      then have ln: "toString34 n = toString34 (n div 34) @ [digits34 ! (n mod 34)]"
        by (subst toString34.simps) simp
      from lm ln "1.prems" have e1: "toString34 (m div 34) = toString34 (n div 34)"
        and e2: "digits34 ! (m mod 34) = digits34 ! (n mod 34)" by simp_all
      from "1.IH"[OF False e1] have d: "m div 34 = n div 34" .
      have "m mod 34 = n mod 34" by (rule digit_inj[OF _ _ e2]) simp_all
      with d show ?thesis by (metis div_mult_mod_eq)
    qed
  qed
qed

lemma toString34_chars: "set (toString34 n) \<subseteq> set digits34"
proof (induction n rule: toString34.induct)
  case (1 n)
  show ?case
  proof (cases "n < 34")
    case True
    then have "toString34 n = [digits34 ! n]" by (subst toString34.simps) simp
    with True show ?thesis by (simp add: digits34_length)
  next
    case False
    then have "toString34 n = toString34 (n div 34) @ [digits34 ! (n mod 34)]"
      by (subst toString34.simps) simp
    moreover have "digits34 ! (n mod 34) \<in> set digits34" by (simp add: digits34_length)
    ultimately show ?thesis using "1.IH"[OF False] by simp
  qed
qed

lemma toString34_not_underscore: "toString34 n \<noteq> ''_''"
proof
  assume "toString34 n = ''_''"
  then have "CHR ''_'' \<in> set (toString34 n)" by simp
  with toString34_chars have "CHR ''_'' \<in> set digits34" by blast
  then show False by (simp add: digits34_def)
qed

lemma toString34_a0: "toString34 (10 * 34 ^ k) = CHR ''a'' # replicate k CHR ''0''"
proof (induction k)
  case 0
  show ?case by (subst toString34.simps) (simp add: digits34_def)
next
  case (Suc k)
  have ge: "\<not> (10 * 34 ^ Suc k < (34::nat))" by simp
  have d: "(10 * 34 ^ Suc k) div 34 = (10 * 34 ^ k :: nat)" by simp
  have m: "(10 * 34 ^ Suc k) mod 34 = (0::nat)" by simp
  have "toString34 (10 * 34 ^ Suc k) = toString34 (10 * 34 ^ k) @ [digits34 ! 0]"
    by (subst toString34.simps) (simp only: ge d m if_False)
  also have "\<dots> = CHR ''a'' # replicate k CHR ''0'' @ [CHR ''0'']"
    by (simp add: Suc digits34_def)
  also have "\<dots> = CHR ''a'' # replicate (Suc k) CHR ''0''"
    by (simp add: replicate_append_same)
  finally show ?case .
qed

lemma valid_a0: "valid_class_name (CHR ''a'' # replicate k CHR ''0'')"
  by (simp add: is_alpha_def is_lower_def list_all_iff is_ident_char_def is_digit_def)

lemma search_from_length: "search_from tok prev s \<Longrightarrow> length tok < length s"
proof (induction s arbitrary: prev)
  case Nil
  then show ?case by simp
next
  case (Cons a s)
  from Cons.prems have "collision_at tok prev (a # s) \<or> search_from tok (Some a) s" by simp
  then show ?case
  proof
    assume "collision_at tok prev (a # s)"
    then show ?thesis by (simp add: collision_at_def)
  next
    assume "search_from tok (Some a) s"
    then have "length tok < length s" by (rule Cons.IH)
    then show ?thesis by simp
  qed
qed

subsection \<open>The increment\<close>

lemma js_incr_ge: "c \<le> js_incr c"
  by (simp add: js_incr_def)

lemma js_incr_below: "c < 9007199254740992 \<Longrightarrow> js_incr c = Suc c"
  by (simp add: js_incr_def)

lemma js_incr_limit: "js_incr 9007199254740992 = 9007199254740992"
  by (simp add: js_incr_def)

lemma js_incr_le_limit: "c \<le> 9007199254740992 \<Longrightarrow> js_incr c \<le> 9007199254740992"
proof (cases "c < 9007199254740992")
  case True
  then show ?thesis by (simp add: js_incr_below)
next
  case False
  assume "c \<le> 9007199254740992"
  with False have "c = 9007199254740992" by simp
  then show ?thesis by (simp add: js_incr_limit)
qed

lemma js_incr_funpow:
  "c \<le> 9007199254740992 \<Longrightarrow> (js_incr ^^ n) c = min (c + n) 9007199254740992"
proof (induction n)
  case 0
  then show ?case by simp
next
  case (Suc n)
  show ?case
  proof (cases "c + n < 9007199254740992")
    case True
    with Suc show ?thesis by (simp add: js_incr_below)
  next
    case False
    with Suc show ?thesis by (simp add: js_incr_limit)
  qed
qed

subsection \<open>The first digit of a rendering\<close>

lemma toString34_hd_length:
  "34 ^ k \<le> n \<Longrightarrow> n < 34 ^ Suc k \<Longrightarrow>
   length (toString34 n) = Suc k \<and> hd (toString34 n) = digits34 ! (n div 34 ^ k)"
proof (induction k arbitrary: n)
  case 0
  then have "n < 34" by simp
  then have "toString34 n = [digits34 ! n]" by (subst toString34.simps) simp
  then show ?case by simp
next
  case (Suc k)
  have "(34::nat) \<le> 34 ^ Suc k" by simp
  with Suc.prems(1) have ge: "\<not> n < 34" by linarith
  then have e: "toString34 n = toString34 (n div 34) @ [digits34 ! (n mod 34)]"
    by (subst toString34.simps) simp
  from Suc.prems(1) have lo: "34 ^ k \<le> n div 34"
    by (simp add: less_eq_div_iff_mult_less_eq mult.commute)
  from Suc.prems(2) have hi: "n div 34 < 34 ^ Suc k"
    by (simp add: div_less_iff_less_mult mult.commute)
  from Suc.IH[OF lo hi] have ih: "length (toString34 (n div 34)) = Suc k"
    "hd (toString34 (n div 34)) = digits34 ! (n div 34 div 34 ^ k)" by simp_all
  have d: "n div 34 div 34 ^ k = n div 34 ^ Suc k" by (simp add: div_mult2_eq)
  from ih(1) have "toString34 (n div 34) \<noteq> []" by auto
  with e ih d show ?case by simp
qed


lemma digits34_digit: "d < 10 \<Longrightarrow> is_digit (digits34 ! d)"
proof -
  assume h: "d < 10"
  then have "digits34 ! d = take 10 digits34 ! d" by simp
  moreover have "take 10 digits34 ! d \<in> set (take 10 digits34)"
    using h by (intro nth_mem) (simp add: digits34_length)
  moreover have "take 10 digits34 = ''0123456789''" by (simp add: digits34_def)
  ultimately show ?thesis by (auto simp: is_digit_def)
qed




lemma digit_not_valid: "is_digit (hd t) \<Longrightarrow> \<not> valid_class_name t"
  by (cases t) (auto simp: char_defs)


text \<open>From \<open>34^10\<close> to \<open>2^53\<close> every rendering has eleven digits and one of \<open>1\<close> to
  \<open>4\<close> in front.\<close>

lemma invalid_in_range:
  assumes "34 ^ 10 \<le> n" "n \<le> 9007199254740992"
  shows "\<not> valid_class_name (toString34 n)"
proof -
  from assms(2) have hi: "n < 34 ^ Suc 10" by simp
  from toString34_hd_length[OF assms(1) hi]
  have h: "hd (toString34 n) = digits34 ! (n div 34 ^ 10)" by simp
  from assms(2) have "n div 34 ^ 10 < 10"
    by (simp add: div_less_iff_less_mult)
  from digits34_digit[OF this] h have "is_digit (hd (toString34 n))" by simp
  then show ?thesis by (rule digit_not_valid)
qed

subsection \<open>Where a token collides\<close>



subsection \<open>The loop of \<open>succ\<close>\<close>

text \<open>What the loop returns, if it returns.\<close>

lemma succ_loop_result:
  assumes "succ_loop css c = Some y"
  shows "\<exists>m\<ge>c. accepted css m \<and> (c \<le> 9007199254740992 \<longrightarrow> m \<le> 9007199254740992) \<and>
           y = (toString34 m, js_incr m)"
proof (rule succ_loop.raw_induct[where P = "\<lambda>css c y. \<exists>m\<ge>c. accepted css m \<and>
    (c \<le> 9007199254740992 \<longrightarrow> m \<le> 9007199254740992) \<and> y = (toString34 m, js_incr m)", OF _ assms])
  fix f css c y
  assume ih: "\<And>css c y. f css c = Some y \<Longrightarrow> \<exists>m\<ge>c. accepted css m \<and>
      (c \<le> 9007199254740992 \<longrightarrow> m \<le> 9007199254740992) \<and> y = (toString34 m, js_incr m)"
    and body: "(let className = toString34 c in
      if \<not> valid_class_name className then f css (js_incr c)
      else if collides css className then f css (js_incr c)
      else Some (className, js_incr c)) = Some y"
  show "\<exists>m\<ge>c. accepted css m \<and> (c \<le> 9007199254740992 \<longrightarrow> m \<le> 9007199254740992) \<and>
      y = (toString34 m, js_incr m)"
  proof (cases "accepted css c")
    case True
    with body have "y = (toString34 c, js_incr c)" by (auto simp: accepted_def Let_def)
    with True show ?thesis by (intro exI[of _ c]) simp
  next
    case False
    with body have "f css (js_incr c) = Some y" by (auto simp: accepted_def Let_def split: if_splits)
    from ih[OF this] obtain m where m: "js_incr c \<le> m" "accepted css m"
      "js_incr c \<le> 9007199254740992 \<longrightarrow> m \<le> 9007199254740992" "y = (toString34 m, js_incr m)"
      by blast
    from m(1) js_incr_ge[of c] have "c \<le> m" by linarith
    moreover from m(3) js_incr_le_limit[of c]
    have "c \<le> 9007199254740992 \<longrightarrow> m \<le> 9007199254740992" by blast
    ultimately show ?thesis using m(2,4) by blast
  qed
qed

lemma succ_loop_result_exact:
  assumes "succ_loop css c = Some y" "c \<le> 9007199254740992"
  shows "\<exists>m\<ge>c. m < 9007199254740992 \<and> accepted css m \<and> y = (toString34 m, Suc m)"
proof -
  from succ_loop_result[OF assms(1)] assms(2) obtain m where
    m: "c \<le> m" "accepted css m" "m \<le> 9007199254740992" "y = (toString34 m, js_incr m)" by blast
  have "m \<noteq> 9007199254740992"
  proof
    assume "m = 9007199254740992"
    with m(2) have "valid_class_name (toString34 9007199254740992)" by (simp add: accepted_def)
    moreover have "\<not> valid_class_name (toString34 9007199254740992)"
      by (rule invalid_in_range) simp_all
    ultimately show False by simp
  qed
  with m(3) have lt: "m < 9007199254740992" by simp
  with m show ?thesis by (intro exI[of _ m]) (simp add: js_incr_below)
qed

text \<open>The loop returns when a counter value below \<open>2^53\<close> is accepted.\<close>

lemma succ_loop_reaches:
  "accepted css n \<Longrightarrow> c \<le> n \<Longrightarrow> n < 9007199254740992 \<Longrightarrow>
   \<exists>m. c \<le> m \<and> m \<le> n \<and> accepted css m \<and> succ_loop css c = Some (toString34 m, Suc m)"
proof (induction "n - c" arbitrary: c)
  case 0
  then have "c = n" by simp
  with "0.prems" show ?case
    by (subst succ_loop.simps) (auto simp: accepted_def Let_def js_incr_below)
next
  case (Suc d)
  from Suc.hyps(2) Suc.prems have cl: "c < 9007199254740992" by simp
  show ?case
  proof (cases "accepted css c")
    case True
    with Suc.prems cl show ?thesis
      by (subst succ_loop.simps) (auto simp: accepted_def Let_def js_incr_below)
  next
    case False
    from Suc.hyps(2) Suc.prems have "d = n - Suc c" "Suc c \<le> n" by simp_all
    from Suc.hyps(1)[OF this(1) Suc.prems(1) this(2) Suc.prems(3)]
    obtain m where m: "Suc c \<le> m" "m \<le> n" "accepted css m"
      "succ_loop css (Suc c) = Some (toString34 m, Suc m)" by blast
    from False cl have "succ_loop css c = succ_loop css (Suc c)"
      by (subst succ_loop.simps) (auto simp: accepted_def Let_def js_incr_below)
    with m show ?thesis by (intro exI[of _ m]) simp
  qed
qed

lemma succ_loop_returns_iff:
  assumes "c \<le> 9007199254740992"
  shows "(\<exists>y. succ_loop css c = Some y) \<longleftrightarrow> (\<exists>m\<ge>c. m < 9007199254740992 \<and> accepted css m)"
proof
  assume "\<exists>y. succ_loop css c = Some y"
  then obtain y where "succ_loop css c = Some y" by blast
  from succ_loop_result_exact[OF this assms] show "\<exists>m\<ge>c. m < 9007199254740992 \<and> accepted css m"
    by blast
next
  assume "\<exists>m\<ge>c. m < 9007199254740992 \<and> accepted css m"
  then obtain m where "c \<le> m" "m < 9007199254740992" "accepted css m" by blast
  from succ_loop_reaches[OF this(3,1,2)] show "\<exists>y. succ_loop css c = Some y" by blast
qed



text \<open>The loop of the legacy build never returns.\<close>

lemma legacy_succ_no_result:
  assumes "legacy_succ_loop css c = Some y"
  shows False
proof (rule legacy_succ_loop.raw_induct[where P = "\<lambda>_ _ _. False", OF _ assms])
  fix f css c y
  assume "\<And>css c y. f css c = Some y \<Longrightarrow> False"
    and "(if collides css (toString34 c) then f css (js_incr c) else f css c) = Some y"
  then show False by (auto split: if_splits)
qed

lemma legacy_succ_never_returns: "legacy_succ_loop css c = None"
  using legacy_succ_no_result[of css c] by (cases "legacy_succ_loop css c") auto

lemmas eval_defs = char_defs digits34_def js_incr_def toString34.simps collision_at_def collides_def
  succ_loop.simps remove_dots_def indexOf_def sort_by_def is_global_def cls_run_def captures_at_def
  skip_char_def str_match_def replace_scan_def str_replace_def emptyFn_def default_config_def
  constructor_def registry_of_def put_registry_def object_prototype_names_def items_get_def succ_def
  truthy_str_def generateCssClsRegExp_def generateJsClsRegExp_def cmp_length_def parseCssRules_def
  count_callback_def replaceItem_def enter_def replaceAll_def replace_traverse_def replace_def
  openFiles_def initFilesAst_def run_def css_callback_def generateCss_def getReplacementsCount_def
  Let_def

lemma succ_result:
  "succ st = Some (tok, st') \<Longrightarrow>
   \<exists>m\<ge>counter st. accepted (cssText st) m \<and> tok = toString34 m \<and> st' = st\<lparr>counter := js_incr m\<rparr>"
proof -
  assume "succ st = Some (tok, st')"
  then obtain c where l: "succ_loop (cssText st) (counter st) = Some (tok, c)"
    and s: "st' = st\<lparr>counter := c\<rparr>"
    by (auto simp: succ_def split: option.splits)
  from succ_loop_result[OF l] s show ?thesis by auto
qed

lemma succ_result_exact:
  "succ st = Some (tok, st') \<Longrightarrow> counter st \<le> 9007199254740992 \<Longrightarrow>
   \<exists>m\<ge>counter st. m < 9007199254740992 \<and> accepted (cssText st) m \<and> tok = toString34 m \<and>
     st' = st\<lparr>counter := Suc m\<rparr>"
proof -
  assume "succ st = Some (tok, st')" and b: "counter st \<le> 9007199254740992"
  then obtain c where l: "succ_loop (cssText st) (counter st) = Some (tok, c)"
    and s: "st' = st\<lparr>counter := c\<rparr>"
    by (auto simp: succ_def split: option.splits)
  from succ_loop_result_exact[OF l b] s show ?thesis by auto
qed

lemma succ_frame: "succ st = Some (tok, st') \<Longrightarrow> \<exists>c. st' = st\<lparr>counter := c\<rparr>"
  by (auto simp: succ_def split: option.splits)

lemma alpha_not_digit: "is_alpha c \<Longrightarrow> \<not> is_digit c"
  by (auto simp: is_alpha_def is_lower_def is_upper_def is_digit_def)

lemma valid_class_name_safe:
  "valid_class_name t \<Longrightarrow>
   t \<noteq> [] \<and> \<not> is_digit (hd t) \<and> \<not> (\<exists>d ds. t = CHR ''-'' # d # ds \<and> is_digit d)"
proof (cases t)
  case Nil
  assume "valid_class_name t"
  with Nil show ?thesis by simp
next
  case (Cons c cs)
  assume v: "valid_class_name t"
  have nd: "\<not> is_digit CHR ''_''" "\<not> is_digit CHR ''-''" by (simp_all add: is_digit_def)
  from v Cons have "\<not> is_digit c"
    by (auto simp: alpha_not_digit nd split: if_splits)
  moreover from v Cons have "\<not> (\<exists>d ds. t = CHR ''-'' # d # ds \<and> is_digit d)"
    by (auto simp: alpha_not_digit nd is_alpha_def is_lower_def is_upper_def split: if_splits list.splits)
  ultimately show ?thesis using Cons by simp
qed




text \<open>
  Claim C8. Every token that \<open>succ\<close> returns is safe as a CSS identifier: it is not empty,
  does not start with a digit, and does not start with a hyphen followed by a digit.
\<close>

theorem succ_token_safe:
  "succ st = Some (tok, st') \<Longrightarrow>
   tok \<noteq> [] \<and> \<not> is_digit (hd tok) \<and> \<not> (\<exists>d ds. tok = CHR ''-'' # d # ds \<and> is_digit d)"
proof -
  assume "succ st = Some (tok, st')"
  then obtain m where "accepted (cssText st) m" "tok = toString34 m"
    using succ_result by blast
  then have "valid_class_name tok" by (simp add: accepted_def)
  then show ?thesis by (rule valid_class_name_safe)
qed

theorem succ_token_safe_witness:
  "succ (openFiles (constructor default_config) ''.foo{color:red}'')
     = Some (''a'', (openFiles (constructor default_config) ''.foo{color:red}'')\<lparr>counter := 11\<rparr>)
   \<and> ''a'' \<noteq> [] \<and> \<not> is_digit (hd ''a'') \<and> \<not> (\<exists>d ds. ''a'' = CHR ''-'' # d # ds \<and> is_digit d)"
proof -
  have h: "succ (openFiles (constructor default_config) ''.foo{color:red}'')
     = Some (''a'', (openFiles (constructor default_config) ''.foo{color:red}'')\<lparr>counter := 11\<rparr>)"
    by (simp add: eval_defs)
  show ?thesis using h succ_token_safe[OF h] by simp
qed

section \<open>The class-name catalog\<close>

lemma index_from_eq:
  "index_from x i ys = (if x \<in> set ys then int (i + length (takeWhile (\<lambda>y. y \<noteq> x) ys)) else - 1)"
  by (induction ys arbitrary: i) auto

lemma takeWhile_neq_short: "x \<in> set pre \<Longrightarrow> length (takeWhile (\<lambda>y. y \<noteq> x) pre) < length pre"
  by (induction pre) auto

lemma indexOf_at: "indexOf (pre @ x # xs) x = int (length pre) \<longleftrightarrow> x \<notin> set pre"
proof (cases "x \<in> set pre")
  case True
  then have "takeWhile (\<lambda>y. y \<noteq> x) (pre @ x # xs) = takeWhile (\<lambda>y. y \<noteq> x) pre"
    by (induction pre) auto
  with True takeWhile_neq_short[OF True] show ?thesis
    by (simp add: indexOf_def index_from_eq)
next
  case False
  then have "takeWhile (\<lambda>y. y \<noteq> x) (pre @ x # xs) = pre"
    by (induction pre) auto
  with False show ?thesis by (simp add: indexOf_def index_from_eq)
qed

lemma keep_first_seen_cong:
  "(\<And>y. y \<in> set ys \<Longrightarrow> (y \<in> set s1) = (y \<in> set s2)) \<Longrightarrow> keep_first s1 ys = keep_first s2 ys"
proof (induction ys arbitrary: s1 s2)
  case Nil
  show ?case by simp
next
  case (Cons y ys)
  have h: "(y \<in> set s1) = (y \<in> set s2)" by (rule Cons.prems) simp
  have "keep_first s1 ys = keep_first s2 ys" by (rule Cons.IH) (simp add: Cons.prems)
  moreover have "keep_first (y # s1) ys = keep_first (y # s2) ys"
    by (rule Cons.IH) (auto simp: Cons.prems)
  ultimately show ?case using h by simp
qed

lemma filter_pos_keep_first:
  "filter_pos (\<lambda>c pos. indexOf (pre @ xs) c = int pos) (length pre) xs = keep_first pre xs"
proof (induction xs arbitrary: pre)
  case Nil
  show ?case by simp
next
  case (Cons x xs)
  have ih: "filter_pos (\<lambda>c pos. indexOf (pre @ x # xs) c = int pos) (Suc (length pre)) xs
            = keep_first (pre @ [x]) xs"
    using Cons.IH[of "pre @ [x]"] by simp
  show ?case
  proof (cases "x \<in> set pre")
    case True
    have "keep_first (pre @ [x]) xs = keep_first pre xs"
      by (rule keep_first_seen_cong) (use True in auto)
    with True ih show ?thesis by (simp add: indexOf_at)
  next
    case False
    have "keep_first (pre @ [x]) xs = keep_first (x # pre) xs"
      by (rule keep_first_seen_cong) auto
    with False ih show ?thesis by (simp add: indexOf_at)
  qed
qed

lemma keep_first_subset: "set (keep_first seen xs) \<subseteq> set xs"
  by (induction xs arbitrary: seen) auto

lemma keep_first_set: "set (keep_first seen xs) = set xs - set seen"
  by (induction xs arbitrary: seen) auto

lemma keep_first_distinct: "distinct (keep_first seen xs)"
  by (induction xs arbitrary: seen) (auto simp: keep_first_set)

lemma keep_first_sorted: "sorted_wrt R xs \<Longrightarrow> sorted_wrt R (keep_first seen xs)"
proof (induction xs arbitrary: seen)
  case Nil
  show ?case by simp
next
  case (Cons x xs)
  then show ?case using keep_first_subset[of "x # seen" xs] by auto
qed

lemma keep_first_filter: "filter P (keep_first seen xs) = keep_first seen (filter P xs)"
proof (induction xs arbitrary: seen)
  case Nil
  show ?case by simp
next
  case (Cons x xs)
  show ?case
  proof (cases "P x")
    case True
    then show ?thesis by (simp add: Cons.IH)
  next
    case False
    have "keep_first (x # seen) (filter P xs) = keep_first seen (filter P xs)"
      by (rule keep_first_seen_cong) (use False in auto)
    with False show ?thesis by (simp add: Cons.IH)
  qed
qed

lemma set_insort_by: "set (insort_by cmp x ys) = insert x (set ys)"
  by (induction ys) auto

lemma sorted_insort_by:
  "sorted_wrt (\<lambda>a b. length b \<le> length a) ys \<Longrightarrow>
   sorted_wrt (\<lambda>a b. length b \<le> length a) (insort_by cmp_length x ys)"
  by (induction ys) (auto simp: set_insort_by cmp_length_def)

lemma sorted_sort_by: "sorted_wrt (\<lambda>a b. length b \<le> length a) (sort_by cmp_length xs)"
  by (induction xs) (simp_all add: sort_by_def sorted_insort_by)

lemma filter_insort_by:
  "filter (\<lambda>c. length c = k) (insort_by cmp_length x ys) =
     (if length x = k then x # filter (\<lambda>c. length c = k) ys else filter (\<lambda>c. length c = k) ys)"
  by (induction ys) (auto simp: cmp_length_def)

lemma sort_by_stable:
  "filter (\<lambda>c. length c = k) (sort_by cmp_length xs) = filter (\<lambda>c. length c = k) xs"
  by (induction xs) (simp_all add: sort_by_def filter_insort_by)

lemma set_sort_by: "set (sort_by cmp xs) = set xs"
  by (induction xs) (simp_all add: sort_by_def set_insort_by)

lemma extract_classes_concat:
  "extract_classes rx rs cls = cls @ concat (map (extract_rule rx) rs)"
  by (induction rs arbitrary: cls) simp_all

lemma extract_rule_other: "\<not> is_style_rule r \<Longrightarrow> extract_rule rx r = []"
  by (cases r) simp_all

lemma extract_classes_filter:
  "extract_classes rx (filter is_style_rule rs) cls = extract_classes rx rs cls"
  by (induction rs arbitrary: cls) (simp_all add: extract_rule_other)

lemma parseCssRules_Some:
  assumes "parseCssRules st = Some st'"
  shows "\<exists>rx. generateCssClsRegExp (config st) = Some rx \<and>
           st' = st\<lparr>rules := cssAst st,
                    classes := keep_first [] (sort_by cmp_length (extract_classes rx (cssAst st) []))\<rparr>"
proof -
  from assms obtain rx where rx: "generateCssClsRegExp (config st) = Some rx"
    by (auto simp: parseCssRules_def split: option.splits)
  have f: "filter_pos (\<lambda>c pos. indexOf xs c = int pos) 0 xs = keep_first [] xs" for xs :: "string list"
    using filter_pos_keep_first[of "[]" xs] by simp
  from assms rx show ?thesis by (auto simp: parseCssRules_def Let_def f)
qed

lemma parseCssRules_returns:
  "(\<exists>st'. parseCssRules st = Some st') \<longleftrightarrow> (\<exists>rx. generateCssClsRegExp (config st) = Some rx)"
  by (auto simp: parseCssRules_def Let_def split: option.splits)

lemma parseCssRules_frame:
  assumes "parseCssRules st = Some st'"
  shows "config st' = config st" "counter st' = counter st" "key st' = key st"
    "count st' = count st" "items st' = items st" "cssText st' = cssText st"
    "jsAst st' = jsAst st" "cssAst st' = cssAst st" "rules st' = cssAst st"
  using parseCssRules_Some[OF assms] by auto

lemma classes_distinct: "parseCssRules st = Some st' \<Longrightarrow> distinct (classes st')"
  using parseCssRules_Some[of st st'] by (auto simp: keep_first_distinct)

text \<open>
  Claim C7. After \<open>parseCssRules\<close> the catalog is in descending order of length; the class
  names of one length stand in the order of their first appearance in the extraction
  sequence, each once (so the catalog has no duplicates); and the selectors \<open>.ab\<close>,
  \<open>.a\<close>, \<open>.abc\<close> in that order, in three rules or in one, give the catalog
  \<open>["abc", "ab", "a"]\<close>. \<open>parseCssRules\<close> returns unless the configuration holds a
  prefix or an expression from which no pattern can be built.
\<close>

theorem catalog_order:
  "((\<exists>st'. parseCssRules st = Some st') \<longleftrightarrow> (\<exists>rx. generateCssClsRegExp (config st) = Some rx)) \<and>
   (\<forall>st'. parseCssRules st = Some st' \<longrightarrow>
      (\<exists>rx. generateCssClsRegExp (config st) = Some rx \<and>
         sorted_wrt (\<lambda>a b. length b \<le> length a) (classes st') \<and>
         distinct (classes st') \<and>
         (\<forall>k. filter (\<lambda>c. length c = k) (classes st') =
              keep_first [] (filter (\<lambda>c. length c = k) (extract_classes rx (cssAst st) []))))) \<and>
   map_option classes (parseCssRules (initFilesAst (constructor default_config)
      [Rule [''.ab''] ''color:red'', Rule [''.a''] ''color:red'', Rule [''.abc''] ''color:red''] []))
     = Some [''abc'', ''ab'', ''a''] \<and>
   map_option classes (parseCssRules (initFilesAst (constructor default_config)
      [Rule [''.ab'', ''.a'', ''.abc''] ''color:red''] []))
     = Some [''abc'', ''ab'', ''a'']"
proof (intro conjI allI impI)
  show "(\<exists>st'. parseCssRules st = Some st') \<longleftrightarrow> (\<exists>rx. generateCssClsRegExp (config st) = Some rx)"
    by (rule parseCssRules_returns)
next
  fix st' assume p: "parseCssRules st = Some st'"
  from parseCssRules_Some[OF p] obtain rx where rx: "generateCssClsRegExp (config st) = Some rx"
    and c: "classes st' = keep_first [] (sort_by cmp_length (extract_classes rx (cssAst st) []))"
    by auto
  have "sorted_wrt (\<lambda>a b. length b \<le> length a) (classes st')"
    by (simp add: c keep_first_sorted sorted_sort_by)
  moreover have "distinct (classes st')" by (simp add: c keep_first_distinct)
  moreover have "filter (\<lambda>c. length c = k) (classes st') =
      keep_first [] (filter (\<lambda>c. length c = k) (extract_classes rx (cssAst st) []))" for k
    by (simp add: c keep_first_filter sort_by_stable)
  ultimately show "\<exists>rx. generateCssClsRegExp (config st) = Some rx \<and>
         sorted_wrt (\<lambda>a b. length b \<le> length a) (classes st') \<and>
         distinct (classes st') \<and>
         (\<forall>k. filter (\<lambda>c. length c = k) (classes st') =
              keep_first [] (filter (\<lambda>c. length c = k) (extract_classes rx (cssAst st) [])))"
    using rx by blast
next
  show "map_option classes (parseCssRules (initFilesAst (constructor default_config)
      [Rule [''.ab''] ''color:red'', Rule [''.a''] ''color:red'', Rule [''.abc''] ''color:red''] []))
     = Some [''abc'', ''ab'', ''a'']"
    by (simp add: eval_defs)
next
  show "map_option classes (parseCssRules (initFilesAst (constructor default_config)
      [Rule [''.ab'', ''.a'', ''.abc''] ''color:red''] []))
     = Some [''abc'', ''ab'', ''a'']"
    by (simp add: eval_defs)
qed

theorem catalog_order_witness:
  "parseCssRules (initFilesAst (constructor default_config)
      [Rule [''.ab'', ''.a'', ''.ab'', ''.abc'', ''.b''] ''color:red''] [])
     = Some \<lparr>counter = 0, config = default_config, key = ''_'', count = 0, items = Map.empty,
         cssText = [], cssAst = [Rule [''.ab'', ''.a'', ''.ab'', ''.abc'', ''.b''] ''color:red''],
         jsAst = [], rules = [Rule [''.ab'', ''.a'', ''.ab'', ''.abc'', ''.b''] ''color:red''],
         classes = [''abc'', ''ab'', ''a'', ''b'']\<rparr>
   \<and> sorted_wrt (\<lambda>a b. length b \<le> length a) [''abc'', ''ab'', ''a'', ''b'']
   \<and> distinct [''abc'', ''ab'', ''a'', ''b'']
   \<and> filter (\<lambda>c. length c = 1) [''abc'', ''ab'', ''a'', ''b'']
       = keep_first [] (filter (\<lambda>c. length c = 1)
           (extract_classes CssCls [Rule [''.ab'', ''.a'', ''.ab'', ''.abc'', ''.b''] ''color:red''] []))"
proof -
  let ?st = "initFilesAst (constructor default_config)
      [Rule [''.ab'', ''.a'', ''.ab'', ''.abc'', ''.b''] ''color:red''] []"
  let ?st' = "\<lparr>counter = 0, config = default_config, key = ''_'', count = 0, items = Map.empty,
         cssText = [], cssAst = [Rule [''.ab'', ''.a'', ''.ab'', ''.abc'', ''.b''] ''color:red''],
         jsAst = [], rules = [Rule [''.ab'', ''.a'', ''.ab'', ''.abc'', ''.b''] ''color:red''],
         classes = [''abc'', ''ab'', ''a'', ''b'']\<rparr>"
  have h: "parseCssRules ?st = Some ?st'" by (simp add: eval_defs)
  have g: "generateCssClsRegExp (config ?st) = Some CssCls" by (simp add: eval_defs)
  have a: "cssAst ?st = [Rule [''.ab'', ''.a'', ''.ab'', ''.abc'', ''.b''] ''color:red'']"
    by (simp add: initFilesAst_def)
  have c: "classes ?st' = [''abc'', ''ab'', ''a'', ''b'']" by simp
  from catalog_order[of ?st] h obtain rx where
    r: "generateCssClsRegExp (config ?st) = Some rx"
    and s: "sorted_wrt (\<lambda>a b. length b \<le> length a) (classes ?st')"
    and d: "distinct (classes ?st')"
    and f: "\<And>k. filter (\<lambda>c. length c = k) (classes ?st') =
        keep_first [] (filter (\<lambda>c. length c = k) (extract_classes rx (cssAst ?st) []))"
    by blast
  from r g have "rx = CssCls" by simp
  with f[of 1] have "filter (\<lambda>c. length c = 1) (classes ?st') =
        keep_first [] (filter (\<lambda>c. length c = 1) (extract_classes CssCls (cssAst ?st) []))"
    by (simp only:)
  with s d show ?thesis unfolding a c using h by (intro conjI)
qed

text \<open>
  Claim C9. \<open>parseCssRules\<close> reads the top-level rules of type \<open>rule\<close> only: the catalog
  is the catalog of the stylesheet with every other top-level entry (media blocks with all
  they contain, comments, ...) removed, and every class name of the catalog is extracted
  from the selectors of a top-level style rule.
\<close>

theorem catalog_top_level_only:
  "map_option classes (parseCssRules st) =
     map_option classes (parseCssRules (st\<lparr>cssAst := filter is_style_rule (cssAst st)\<rparr>)) \<and>
   (\<forall>st'. parseCssRules st = Some st' \<longrightarrow>
      (\<forall>c\<in>set (classes st').
         \<exists>sels decls rx. generateCssClsRegExp (config st) = Some rx \<and>
           Rule sels decls \<in> set (cssAst st) \<and> c \<in> set (extract_rule rx (Rule sels decls))))"
proof (intro conjI allI impI ballI)
  show "map_option classes (parseCssRules st) =
     map_option classes (parseCssRules (st\<lparr>cssAst := filter is_style_rule (cssAst st)\<rparr>))"
    by (simp add: parseCssRules_def Let_def extract_classes_filter split: option.splits)
next
  fix st' c assume p: "parseCssRules st = Some st'" and c: "c \<in> set (classes st')"
  from parseCssRules_Some[OF p] obtain rx where rx: "generateCssClsRegExp (config st) = Some rx"
    and cl: "classes st' = keep_first [] (sort_by cmp_length (extract_classes rx (cssAst st) []))"
    by auto
  from c have "c \<in> set (extract_classes rx (cssAst st) [])"
    by (simp add: cl keep_first_set set_sort_by)
  then obtain r where r: "r \<in> set (cssAst st)" "c \<in> set (extract_rule rx r)"
    by (auto simp: extract_classes_concat)
  then have "is_style_rule r" using extract_rule_other by fastforce
  then obtain sels decls where "r = Rule sels decls" by (cases r) auto
  with r rx show "\<exists>sels decls rx. generateCssClsRegExp (config st) = Some rx \<and>
      Rule sels decls \<in> set (cssAst st) \<and> c \<in> set (extract_rule rx (Rule sels decls))" by blast
qed

theorem catalog_top_level_only_witness:
  "map_option classes (parseCssRules (initFilesAst (constructor default_config)
       [Media [Rule [''.m''] ''color:red''], Rule [''.t''] ''color:red'', OtherRule] [])) = Some [''t'']
   \<and> map_option classes (parseCssRules (initFilesAst (constructor default_config)
       [Rule [''.t''] ''color:red''] [])) = Some [''t'']
   \<and> (\<exists>sels decls. Rule sels decls \<in> set [Media [Rule [''.m''] ''color:red''], Rule [''.t''] ''color:red'', OtherRule]
        \<and> ''t'' \<in> set (extract_rule CssCls (Rule sels decls)))"
proof -
  let ?st = "initFilesAst (constructor default_config)
       [Media [Rule [''.m''] ''color:red''], Rule [''.t''] ''color:red'', OtherRule] []"
  let ?st' = "\<lparr>counter = 0, config = default_config, key = ''_'', count = 0, items = Map.empty,
         cssText = [],
         cssAst = [Media [Rule [''.m''] ''color:red''], Rule [''.t''] ''color:red'', OtherRule],
         jsAst = [],
         rules = [Media [Rule [''.m''] ''color:red''], Rule [''.t''] ''color:red'', OtherRule],
         classes = [''t'']\<rparr>"
  have p: "parseCssRules ?st = Some ?st'" by (simp add: eval_defs)
  then have c: "map_option classes (parseCssRules ?st) = Some [''t'']" by simp
  have a: "cssAst ?st = [Media [Rule [''.m''] ''color:red''], Rule [''.t''] ''color:red'', OtherRule]"
    by (simp add: initFilesAst_def)
  have g: "generateCssClsRegExp (config ?st) = Some CssCls" by (simp add: eval_defs)
  have f: "map_option classes (parseCssRules (initFilesAst (constructor default_config)
       [Rule [''.t''] ''color:red''] [])) = Some [''t'']" by (simp add: eval_defs)
  have t: "''t'' \<in> set (classes ?st')" by simp
  from catalog_top_level_only[of ?st] p t have
    "\<exists>sels decls rx. generateCssClsRegExp (config ?st) = Some rx \<and>
        Rule sels decls \<in> set (cssAst ?st) \<and> ''t'' \<in> set (extract_rule rx (Rule sels decls))"
    by blast
  with g have "\<exists>sels decls. Rule sels decls \<in> set (cssAst ?st) \<and>
      ''t'' \<in> set (extract_rule CssCls (Rule sels decls))" by auto
  then show ?thesis unfolding a using c f by (intro conjI)
qed

section \<open>The substitution table during a run\<close>

lemma token_below_cases:
  assumes "token_below c t"
  obtains "t = ''_''" | n where "n < c" "t = toString34 n"
  using assms unfolding token_below_def by blast

lemma token_below_nonempty: "token_below c t \<Longrightarrow> t \<noteq> []"
  by (erule token_below_cases) (simp_all add: toString34_nonempty)

lemma token_below_mono: "token_below c t \<Longrightarrow> c \<le> c' \<Longrightarrow> token_below c' t"
proof (erule token_below_cases)
  assume "t = ''_''"
  then show "token_below c' t" by (simp add: token_below_def)
next
  fix n assume "c \<le> c'" "n < c" "t = toString34 n"
  then have "n < c'" "t = toString34 n" by simp_all
  then show "token_below c' t" unfolding token_below_def by blast
qed

lemma token_below_fresh: "token_below c t \<Longrightarrow> c \<le> m \<Longrightarrow> toString34 m \<noteq> t"
proof (erule token_below_cases)
  assume "t = ''_''"
  then show "toString34 m \<noteq> t" by (simp add: toString34_not_underscore)
next
  fix n assume "c \<le> m" "n < c" "t = toString34 n"
  then show "toString34 m \<noteq> t" using toString34_inj[of m n] by auto
qed

lemma token_below_new: "token_below (Suc m) (toString34 m)"
  by (auto simp: token_below_def)

lemma table_ok_simps [simp]:
  "table_ok (st\<lparr>count := n\<rparr>) = table_ok st"
  "table_ok (st\<lparr>key := k\<rparr>) = table_ok st"
  "table_ok (st\<lparr>jsAst := ns\<rparr>) = table_ok st"
  "table_ok (st\<lparr>cssAst := rs\<rparr>) = table_ok st"
  "table_ok (st\<lparr>rules := rs\<rparr>) = table_ok st"
  "table_ok (st\<lparr>classes := cs\<rparr>) = table_ok st"
  "table_ok (st\<lparr>cssText := t\<rparr>) = table_ok st"
  by (simp_all add: table_ok_def)

lemma key_ok_simps [simp]:
  "key_ok k (st\<lparr>count := n\<rparr>) = key_ok k st"
  "key_ok k (st\<lparr>key := k'\<rparr>) = key_ok k st"
  "key_ok k (st\<lparr>jsAst := ns\<rparr>) = key_ok k st"
  "key_ok k (st\<lparr>cssAst := rs\<rparr>) = key_ok k st"
  "key_ok k (st\<lparr>rules := rs\<rparr>) = key_ok k st"
  "key_ok k (st\<lparr>classes := cs\<rparr>) = key_ok k st"
  "key_ok k (st\<lparr>cssText := t\<rparr>) = key_ok k st"
  by (simp_all add: key_ok_def)

lemma falsy_None: "table_ok st \<Longrightarrow> \<not> truthy (items_get (items st) k) \<Longrightarrow> items st k = None"
proof (rule ccontr)
  assume ok: "table_ok st" and f: "\<not> truthy (items_get (items st) k)" and "items st k \<noteq> None"
  then obtain v where v: "items st k = Some v" by auto
  with f have "v = []" by (simp add: items_get_def)
  moreover from v have "v \<in> ran (items st)" by (auto simp: ran_def)
  ultimately show False using ok token_below_nonempty by (auto simp: table_ok_def)
qed

lemma inj_on_map_upd:
  assumes "inj_on m (dom m)" "m k = None" "v \<notin> ran m"
  shows "inj_on (m(k \<mapsto> v)) (dom (m(k \<mapsto> v)))"
proof (rule inj_onI)
  fix x y
  assume x: "x \<in> dom (m(k \<mapsto> v))" and y: "y \<in> dom (m(k \<mapsto> v))"
    and e: "(m(k \<mapsto> v)) x = (m(k \<mapsto> v)) y"
  show "x = y"
  proof (cases "x = k")
    case True
    show ?thesis
    proof (cases "y = k")
      case True
      with \<open>x = k\<close> show ?thesis by simp
    next
      case False
      with True e have "m y = Some v" by simp
      with assms(3) show ?thesis by (auto simp: ran_def)
    qed
  next
    case False
    show ?thesis
    proof (cases "y = k")
      case True
      with False e have "m x = Some v" by simp
      with assms(3) show ?thesis by (auto simp: ran_def)
    next
      case yk: False
      with False x y e have "x \<in> dom m" "y \<in> dom m" "m x = m y" by auto
      with assms(1) show ?thesis by (auto dest: inj_onD)
    qed
  qed
qed

lemma table_ok_insert:
  assumes ok: "table_ok st" and none: "items st k = None"
    and below: "token_below c v" and fresh: "v \<notin> ran (items st)" and le: "counter st \<le> c"
    and lim: "c \<le> 9007199254740992"
  shows "table_ok (st\<lparr>items := (items st)(k \<mapsto> v), counter := c\<rparr>)"
proof -
  from ok have inj: "inj_on (items st) (dom (items st))"
    and toks: "\<forall>t\<in>ran (items st). token_below (counter st) t" by (simp_all add: table_ok_def)
  have "inj_on ((items st)(k \<mapsto> v)) (dom ((items st)(k \<mapsto> v)))"
    by (rule inj_on_map_upd[OF inj none fresh])
  moreover have "ran ((items st)(k \<mapsto> v)) = insert v (ran (items st))"
    using none by (simp add: ran_map_upd)
  ultimately show ?thesis using toks below le lim token_below_mono
    by (auto simp: table_ok_def)
qed

lemma assign_step:
  assumes ok: "table_ok st" and kk: "key_ok k st"
    and f: "\<not> truthy (items_get (items st) m)"
    and s: "succ (st\<lparr>items := (items st)(m \<mapsto> k)\<rparr>) = Some (k', st')"
  shows "table_ok st' \<and> key_ok k' st' \<and> items st \<subseteq>\<^sub>m items st' \<and> counter st \<le> counter st' \<and>
         items st' = (items st)(m \<mapsto> k) \<and>
         count st' = count st \<and> config st' = config st \<and> classes st' = classes st \<and>
         cssText st' = cssText st \<and> key st' = key st \<and> jsAst st' = jsAst st \<and>
         rules st' = rules st \<and> cssAst st' = cssAst st"
proof -
  from ok have "counter (st\<lparr>items := (items st)(m \<mapsto> k)\<rparr>) \<le> 9007199254740992"
    by (simp add: table_ok_def)
  from succ_result_exact[OF s this] obtain n where n: "counter st \<le> n" "k' = toString34 n"
    "st' = st\<lparr>items := (items st)(m \<mapsto> k), counter := Suc n\<rparr>" and nl: "n < 9007199254740992"
    by auto
  have none: "items st m = None" by (rule falsy_None[OF ok f])
  from kk have kb: "token_below (counter st) k" and kf: "k \<notin> ran (items st)"
    by (simp_all add: key_ok_def)
  have t: "table_ok st'" unfolding n(3)
    by (rule table_ok_insert[OF ok none _ kf]) (use kb n(1) nl token_below_mono in auto)
  have r: "ran (items st') = insert k (ran (items st))"
    using none by (simp add: n(3) ran_map_upd)
  from ok have toks: "\<forall>t\<in>ran (items st). token_below (counter st) t" by (simp add: table_ok_def)
  have "k' \<notin> ran (items st')"
    unfolding r n(2) using token_below_fresh[OF kb n(1)] toks token_below_fresh[OF _ n(1)] by auto
  then have "key_ok k' st'" by (simp add: key_ok_def n(2) n(3) token_below_new)
  moreover have "items st \<subseteq>\<^sub>m (items st)(m \<mapsto> k)" using none by (auto simp: map_le_def)
  ultimately show ?thesis using t n by simp
qed

lemma register_matches_inv:
  "register_matches ms k st = Some (k', st') \<Longrightarrow> table_ok st \<Longrightarrow> key_ok k st \<Longrightarrow>
   table_ok st' \<and> key_ok k' st' \<and> items st \<subseteq>\<^sub>m items st' \<and> counter st \<le> counter st'"
proof (induction ms arbitrary: k st)
  case Nil
  then show ?case by simp
next
  case (Cons m ms)
  show ?case
  proof (cases "m = []")
    case True
    with Cons.prems show ?thesis by simp
  next
    case False
    show ?thesis
    proof (cases "truthy (items_get (items st) m)")
      case True
      with False Cons.prems have "register_matches ms k st = Some (k', st')" by simp
      from Cons.IH[OF this Cons.prems(2,3)] show ?thesis .
    next
      case f: False
      with False Cons.prems(1) obtain k1 st1 where
        s: "succ (st\<lparr>items := (items st)(m \<mapsto> k)\<rparr>) = Some (k1, st1)"
        and r: "register_matches ms k1 st1 = Some (k', st')"
        by (auto split: option.splits)
      from assign_step[OF Cons.prems(2,3) f s] have
        a: "table_ok st1" "key_ok k1 st1" "items st \<subseteq>\<^sub>m items st1" "counter st \<le> counter st1"
        by blast+
      from Cons.IH[OF r a(1,2)] a(3,4) show ?thesis by (auto intro: map_le_trans)
    qed
  qed
qed

lemma register_matches_frame:
  "register_matches ms k st = Some (k', st') \<Longrightarrow>
   count st' = count st \<and> config st' = config st \<and> classes st' = classes st \<and>
   cssText st' = cssText st \<and> jsAst st' = jsAst st \<and> rules st' = rules st \<and> cssAst st' = cssAst st"
proof (induction ms arbitrary: k st)
  case Nil
  then show ?case by simp
next
  case (Cons m ms)
  show ?case
  proof (cases "m \<noteq> [] \<and> \<not> truthy (items_get (items st) m)")
    case True
    with Cons.prems obtain k1 st1 where
      s: "succ (st\<lparr>items := (items st)(m \<mapsto> k)\<rparr>) = Some (k1, st1)"
      and r: "register_matches ms k1 st1 = Some (k', st')"
      by (auto split: option.splits)
    from succ_frame[OF s] Cons.IH[OF r] show ?thesis by auto
  next
    case False
    with Cons.prems Cons.IH[of k st] show ?thesis by (auto split: if_splits)
  qed
qed

lemma replace_segs_count:
  "replace_segs count_callback segs st = Some (out, st') \<Longrightarrow>
   st' = st\<lparr>count := (js_incr ^^ length segs) (count st)\<rparr>"
proof (induction segs arbitrary: st out)
  case Nil
  then show ?case by simp
next
  case (Cons sg segs)
  obtain pre m where sg: "sg = (pre, m)" by (cases sg)
  have cb: "count_callback m st =
      Some (to_string (items_get (items st) m), st\<lparr>count := js_incr (count st)\<rparr>)"
    by (simp add: count_callback_def)
  from Cons.prems obtain out1 where
    "replace_segs count_callback segs (st\<lparr>count := js_incr (count st)\<rparr>) = Some (out1, st')"
    by (auto simp: sg cb split: option.splits)
  from Cons.IH[OF this] show ?case by (simp add: funpow_swap1)
qed

lemma str_replace_count:
  "str_replace rx count_callback v st = Some (v', st') \<Longrightarrow>
   st' = st\<lparr>count := (js_incr ^^ occurrences rx v) (count st)\<rparr>"
  by (auto simp: str_replace_def occurrences_def split: prod.splits option.splits
      dest: replace_segs_count)

lemma str_match_Nil_iff: "str_match rx v = [] \<longleftrightarrow> occurrences rx v = 0"
  by (auto simp: str_match_def replace_scan_def occurrences_def split: list.splits prod.splits)

lemma replaceItem_Some:
  assumes "replaceItem v st = Some (v', st')"
  obtains rx where "generateJsClsRegExp (config st) (classes st) = Some rx"
    "str_match rx v = []" "v' = v" "st' = st"
  | rx k st1 st2 where "generateJsClsRegExp (config st) (classes st) = Some rx"
    "str_match rx v \<noteq> []"
    "register_matches (str_match rx v) (key st) st = Some (k, st1)"
    "str_replace rx count_callback v st1 = Some (v', st2)" "st' = st2\<lparr>key := k\<rparr>"
proof -
  from assms obtain rx where rx: "generateJsClsRegExp (config st) (classes st) = Some rx"
    by (auto simp: replaceItem_def split: option.splits)
  show ?thesis
  proof (cases "str_match rx v = []")
    case True
    with assms rx have "v' = v" "st' = st" by (simp_all add: replaceItem_def)
    with rx True show ?thesis by (rule that(1))
  next
    case False
    with assms rx obtain k st1 st2 where
      "register_matches (str_match rx v) (key st) st = Some (k, st1)"
      "str_replace rx count_callback v st1 = Some (v', st2)" "st' = st2\<lparr>key := k\<rparr>"
      by (auto simp: replaceItem_def Let_def split: option.splits)
    with rx False show ?thesis by (rule that(2))
  qed
qed

lemma replaceItem_count:
  assumes "replaceItem v st = Some (v', st')"
  shows "count st' = (js_incr ^^ literal_occurrences (config st) (classes st) v) (count st) \<and>
   config st' = config st \<and> classes st' = classes st \<and> cssText st' = cssText st \<and>
   jsAst st' = jsAst st \<and> rules st' = rules st \<and> cssAst st' = cssAst st"
  using assms
proof (cases rule: replaceItem_Some)
  case (1 rx)
  then show ?thesis by (simp add: literal_occurrences_def str_match_Nil_iff)
next
  case (2 rx k st1 st2)
  from register_matches_frame[OF 2(3)] str_replace_count[OF 2(4)] 2(1,5) show ?thesis
    by (simp add: literal_occurrences_def)
qed

lemma replaceItem_inv:
  assumes "replaceItem v st = Some (v', st')" "table_ok st" "key_ok (key st) st"
  shows "table_ok st' \<and> key_ok (key st') st' \<and> items st \<subseteq>\<^sub>m items st' \<and> counter st \<le> counter st'"
  using assms(1)
proof (cases rule: replaceItem_Some)
  case (1 rx)
  with assms show ?thesis by simp
next
  case (2 rx k st1 st2)
  from register_matches_inv[OF 2(3) assms(2,3)] str_replace_count[OF 2(4)] 2(5) show ?thesis
    by simp
qed

section \<open>The traversal of the script\<close>

lemma put_registry_frame [simp]:
  "config (put_registry r st) = config st" "classes (put_registry r st) = classes st"
  "cssText (put_registry r st) = cssText st" "rules (put_registry r st) = rules st"
  "cssAst (put_registry r st) = cssAst st" "jsAst (put_registry r st) = jsAst st"
  "counter (put_registry r st) = reg_counter r" "key (put_registry r st) = reg_key r"
  "count (put_registry r st) = reg_count r" "items (put_registry r st) = reg_items r"
  by (simp_all add: put_registry_def)

lemma registry_of_simps [simp]:
  "reg_counter (registry_of st) = counter st" "reg_key (registry_of st) = key st"
  "reg_count (registry_of st) = count st" "reg_items (registry_of st) = items st"
  by (simp_all add: registry_of_def)

lemma hook_keeps_table_step:
  assumes "hook_keeps_table h" "h i node (registry_of st) = Some (b, node1, r)"
  shows "reg_items r = items st" "reg_key r = key st" "reg_counter r = counter st"
  using assms unfolding hook_keeps_table_def by fastforce+

lemma hook_keeps_count_step:
  assumes "hook_keeps_count h" "h i node (registry_of st) = Some (b, node1, r)"
  shows "reg_count r = count st"
  using assms unfolding hook_keeps_count_def by fastforce

lemma table_ok_put_registry:
  assumes "hook_keeps_table h" "h i node (registry_of st) = Some (b, node1, r)"
  shows "table_ok (put_registry r st) = table_ok st"
    "key_ok (key (put_registry r st)) (put_registry r st) = key_ok (key st) st"
  using hook_keeps_table_step[OF assms] by (simp_all add: table_ok_def key_ok_def)

lemma enter_Some:
  assumes "enter h i node st = Some (node', st')"
  obtains (veto) r node1 where "h i node (registry_of st) = Some (True, node1, r)"
      "node' = node1" "st' = put_registry r st"
  | (other) r where "h i node (registry_of st) = Some (False, OtherNode, r)"
      "node' = OtherNode" "st' = put_registry r st"
  | (literal) r v v' where "h i node (registry_of st) = Some (False, StringLiteral v, r)"
      "replaceItem v (put_registry r st) = Some (v', st')" "node' = StringLiteral v'"
proof -
  from assms obtain b node1 r where hk: "h i node (registry_of st) = Some (b, node1, r)"
    by (auto simp: enter_def split: option.splits)
  show ?thesis
  proof (cases b)
    case True
    with assms hk have "node' = node1" "st' = put_registry r st" by (simp_all add: enter_def)
    with hk True show ?thesis by (intro veto) simp_all
  next
    case False
    show ?thesis
    proof (cases node1)
      case OtherNode
      with assms hk False have "node' = OtherNode" "st' = put_registry r st"
        by (simp_all add: enter_def)
      with hk False OtherNode show ?thesis by (intro other) simp_all
    next
      case (StringLiteral v)
      with assms hk False obtain v' where
        "replaceItem v (put_registry r st) = Some (v', st')" "node' = StringLiteral v'"
        by (auto simp: enter_def split: option.splits)
      with hk False StringLiteral show ?thesis by (intro literal) simp_all
    qed
  qed
qed

lemma enter_inv:
  assumes e: "enter h i node st = Some (node', st')" and q: "hook_keeps_table h"
    and ok: "table_ok st" and kk: "key_ok (key st) st"
  shows "table_ok st' \<and> key_ok (key st') st' \<and> items st \<subseteq>\<^sub>m items st' \<and> counter st \<le> counter st'"
  using e
proof (cases rule: enter_Some)
  case (veto r node1)
  from table_ok_put_registry[OF q veto(1)] hook_keeps_table_step[OF q veto(1)] ok kk veto(3)
  show ?thesis by simp
next
  case (other r)
  from table_ok_put_registry[OF q other(1)] hook_keeps_table_step[OF q other(1)] ok kk other(3)
  show ?thesis by simp
next
  case (literal r v v')
  from table_ok_put_registry[OF q literal(1)] ok kk have
    "table_ok (put_registry r st)" "key_ok (key (put_registry r st)) (put_registry r st)"
    by simp_all
  from replaceItem_inv[OF literal(2) this] hook_keeps_table_step[OF q literal(1)]
  show ?thesis by simp
qed

lemma enter_frame:
  assumes "enter h i node st = Some (node', st')"
  shows "config st' = config st \<and> classes st' = classes st \<and> cssText st' = cssText st \<and>
    rules st' = rules st \<and> cssAst st' = cssAst st \<and> jsAst st' = jsAst st"
  using assms
proof (cases rule: enter_Some)
  case (literal r v v')
  from replaceItem_count[OF literal(2)] show ?thesis by simp
qed simp_all

lemma traverse_frame:
  "traverse h i ns st = Some (ns', st') \<Longrightarrow>
   config st' = config st \<and> classes st' = classes st \<and> cssText st' = cssText st \<and>
   rules st' = rules st \<and> cssAst st' = cssAst st \<and> jsAst st' = jsAst st"
proof (induction ns arbitrary: i st ns')
  case Nil
  then show ?case by simp
next
  case (Cons n ns)
  from Cons.prems obtain n1 st1 ns1 where
    a: "enter h i n st = Some (n1, st1)" and b: "traverse h (Suc i) ns st1 = Some (ns1, st')"
    by (auto split: option.splits)
  from enter_frame[OF a] Cons.IH[OF b] show ?case by simp
qed

lemma traverse_inv:
  "traverse h i ns st = Some (ns', st') \<Longrightarrow> hook_keeps_table h \<Longrightarrow>
   table_ok st \<Longrightarrow> key_ok (key st) st \<Longrightarrow>
   table_ok st' \<and> key_ok (key st') st' \<and> items st \<subseteq>\<^sub>m items st' \<and> counter st \<le> counter st'"
proof (induction ns arbitrary: i st ns')
  case Nil
  then show ?case by simp
next
  case (Cons n ns)
  from Cons.prems(1) obtain n1 st1 ns1 where
    a: "enter h i n st = Some (n1, st1)" and b: "traverse h (Suc i) ns st1 = Some (ns1, st')"
    by (auto split: option.splits)
  from enter_inv[OF a Cons.prems(2,3,4)] have
    c: "table_ok st1" "key_ok (key st1) st1" "items st \<subseteq>\<^sub>m items st1" "counter st \<le> counter st1"
    by blast+
  from Cons.IH[OF b Cons.prems(2) c(1,2)] c(3,4) show ?case by (auto intro: map_le_trans)
qed

lemma traverse_append:
  "traverse h i (ns1 @ ns2) st =
     (case traverse h i ns1 st of None \<Rightarrow> None
      | Some (out1, st1) \<Rightarrow>
          (case traverse h (i + length ns1) ns2 st1 of None \<Rightarrow> None
           | Some (out2, st2) \<Rightarrow> Some (out1 @ out2, st2)))"
proof (induction ns1 arbitrary: i st)
  case Nil
  show ?case by (simp split: option.splits)
next
  case (Cons n ns1)
  show ?case by (simp add: Cons.IH split: option.splits)
qed

text \<open>The count after the traversal, when the hook leaves the count alone: one increment
  for every substring replaced in a literal that \<open>replaceItem\<close> was called on.\<close>

lemma enter_count:
  assumes e: "enter h i node st = Some (node', st')" and q: "hook_keeps_count h"
    and hk: "h i node (registry_of st) = Some (b, node1, r)"
  shows "count st' =
    (js_incr ^^ sum_list (map (literal_occurrences (config st) (classes st))
       (case node1 of StringLiteral v \<Rightarrow> if b then [] else [v] | OtherNode \<Rightarrow> []))) (count st)"
  using e
proof (cases rule: enter_Some)
  case (veto r' node1')
  with hk hook_keeps_count_step[OF q hk] show ?thesis by (auto split: js_node.splits)
next
  case (other r')
  with hk hook_keeps_count_step[OF q hk] show ?thesis by auto
next
  case (literal r' v v')
  with hk have eq: "b = False" "node1 = StringLiteral v" "r' = r" by simp_all
  from replaceItem_count[OF literal(2)] hook_keeps_count_step[OF q hk] show ?thesis
    by (simp add: eq)
qed

lemma traverse_count:
  "traverse h i ns st = Some (ns', st') \<Longrightarrow> hook_keeps_count h \<Longrightarrow>
   count st' =
     (js_incr ^^ sum_list (map (literal_occurrences (config st) (classes st))
        (entered_literals h i ns st))) (count st)"
proof (induction ns arbitrary: i st ns')
  case Nil
  then show ?case by simp
next
  case (Cons n ns)
  from Cons.prems(1) obtain n1 st1 ns1 where
    a: "enter h i n st = Some (n1, st1)" and b: "traverse h (Suc i) ns st1 = Some (ns1, st')"
    by (auto split: option.splits)
  from a obtain bb node1 r where hk: "h i n (registry_of st) = Some (bb, node1, r)"
    by (auto simp: enter_def split: option.splits)
  let ?here = "case node1 of StringLiteral v \<Rightarrow> if bb then [] else [v] | OtherNode \<Rightarrow> []"
  have el: "entered_literals h i (n # ns) st = ?here @ entered_literals h (Suc i) ns st1"
    by (simp add: hk a)
  from enter_frame[OF a] have fr: "config st1 = config st" "classes st1 = classes st" by simp_all
  from enter_count[OF a Cons.prems(2) hk] have
    c1: "count st1 = (js_incr ^^ sum_list (map (literal_occurrences (config st) (classes st)) ?here))
        (count st)" .
  from Cons.IH[OF b Cons.prems(2)] have
    "count st' = (js_incr ^^ sum_list (map (literal_occurrences (config st) (classes st))
        (entered_literals h (Suc i) ns st1))) (count st1)" by (simp add: fr)
  then show ?case unfolding el c1 by (simp add: funpow_add add.commute)
qed

lemma entered_literals_emptyFn:
  "traverse emptyFn i ns st = Some (ns', st') \<Longrightarrow>
   entered_literals emptyFn i ns st = string_literals ns"
proof (induction ns arbitrary: i st ns')
  case Nil
  then show ?case by simp
next
  case (Cons n ns)
  from Cons.prems obtain n1 st1 ns1 where
    a: "enter emptyFn i n st = Some (n1, st1)" and b: "traverse emptyFn (Suc i) ns st1 = Some (ns1, st')"
    by (auto split: option.splits)
  have hk: "emptyFn i n (registry_of st) = Some (False, n, registry_of st)"
    by (simp add: emptyFn_def)
  have "entered_literals emptyFn i (n # ns) st =
      (case n of StringLiteral v \<Rightarrow> [v] | OtherNode \<Rightarrow> []) @ entered_literals emptyFn (Suc i) ns st1"
    by (simp add: hk a split: js_node.splits)
  with Cons.IH[OF b] show ?case by (cases n) simp_all
qed

lemma emptyFn_keeps: "hook_keeps_table emptyFn" "hook_keeps_count emptyFn"
  by (simp_all add: hook_keeps_table_def hook_keeps_count_def emptyFn_def)

subsection \<open>replaceAll\<close>

lemma replaceAll_loop_inv:
  "replaceAll_loop cls k st = Some st' \<Longrightarrow> table_ok st \<Longrightarrow> key_ok k st \<Longrightarrow>
   table_ok st' \<and> items st \<subseteq>\<^sub>m items st' \<and> counter st \<le> counter st'"
proof (induction cls arbitrary: k st)
  case Nil
  then show ?case by simp
next
  case (Cons c cls)
  show ?case
  proof (cases "truthy (items_get (items st) c)")
    case True
    with Cons.prems have "replaceAll_loop cls k st = Some st'" by simp
    from Cons.IH[OF this Cons.prems(2,3)] show ?thesis .
  next
    case f: False
    with Cons.prems(1) obtain k1 st1 where
      s: "succ (st\<lparr>items := (items st)(c \<mapsto> k)\<rparr>) = Some (k1, st1)"
      and r: "replaceAll_loop cls k1 (st1\<lparr>count := js_incr (count st1)\<rparr>) = Some st'"
      by (auto split: option.splits)
    from assign_step[OF Cons.prems(2,3) f s] have
      a: "table_ok st1" "key_ok k1 st1" "items st \<subseteq>\<^sub>m items st1" "counter st \<le> counter st1"
      by blast+
    from Cons.IH[OF r] a show ?thesis by (auto intro: map_le_trans)
  qed
qed

lemma unregistered_upd:
  "c \<notin> set cls \<Longrightarrow> unregistered (m(c \<mapsto> k)) cls = unregistered m cls"
  unfolding unregistered_def by (rule filter_cong) (auto simp: items_get_def)

lemma replaceAll_loop_count:
  "replaceAll_loop cls k st = Some st' \<Longrightarrow> distinct cls \<Longrightarrow>
   count st' = (js_incr ^^ length (unregistered (items st) cls)) (count st) \<and>
   config st' = config st \<and> classes st' = classes st \<and> cssText st' = cssText st \<and>
   rules st' = rules st \<and> cssAst st' = cssAst st \<and> jsAst st' = jsAst st \<and> key st' = key st"
proof (induction cls arbitrary: k st)
  case Nil
  then show ?case by (simp add: unregistered_def)
next
  case (Cons c cls)
  from Cons.prems(2) have d: "distinct cls" and nin: "c \<notin> set cls" by simp_all
  show ?case
  proof (cases "truthy (items_get (items st) c)")
    case True
    with Cons.prems have "replaceAll_loop cls k st = Some st'" by simp
    from Cons.IH[OF this d] True show ?thesis by (simp add: unregistered_def)
  next
    case f: False
    with Cons.prems(1) obtain k1 st1 where
      s: "succ (st\<lparr>items := (items st)(c \<mapsto> k)\<rparr>) = Some (k1, st1)"
      and r: "replaceAll_loop cls k1 (st1\<lparr>count := js_incr (count st1)\<rparr>) = Some st'"
      by (auto split: option.splits)
    from succ_frame[OF s] obtain n where
      n: "st1 = st\<lparr>items := (items st)(c \<mapsto> k), counter := n\<rparr>" by auto
    have u: "unregistered (items st) (c # cls) = c # unregistered (items st) cls"
      using f by (simp add: unregistered_def)
    have i1: "items (st1\<lparr>count := js_incr (count st1)\<rparr>) = (items st)(c \<mapsto> k)" by (simp add: n)
    have fr: "count st1 = count st" "config st1 = config st" "classes st1 = classes st"
      "cssText st1 = cssText st" "rules st1 = rules st" "cssAst st1 = cssAst st"
      "jsAst st1 = jsAst st" "key st1 = key st" by (simp_all add: n)
    have e: "unregistered (items (st1\<lparr>count := js_incr (count st1)\<rparr>)) cls = unregistered (items st) cls"
      unfolding i1 by (rule unregistered_upd[OF nin])
    from Cons.IH[OF r d] show ?thesis unfolding e u by (simp add: fr funpow_swap1)
  qed
qed

section \<open>The table during generateCss\<close>

lemma extends_refl: "table_ok st \<Longrightarrow> extends st st"
  by (simp add: extends_def)

lemma extends_trans:
  assumes e1: "extends st st1" and e2: "extends st1 st2"
  shows "extends st st2"
proof -
  have look: "items_get (items st2) k = items_get (items st) k"
    if "truthy (items_get (items st) k)" for k
  proof -
    from e1 that have a: "items_get (items st1) k = items_get (items st) k"
      by (simp add: extends_def)
    with that have "truthy (items_get (items st1) k)" by simp
    with e2 have "items_get (items st2) k = items_get (items st1) k" by (simp add: extends_def)
    with a show ?thesis by simp
  qed
  have new: "\<exists>n. counter st \<le> n \<and> n < counter st2 \<and> accepted (cssText st) n \<and> t = toString34 n"
    if k2: "items st2 k = Some t" and k0: "items st k = None" for k t
  proof (cases "items st1 k")
    case None
    with e2 k2 obtain n where "counter st1 \<le> n" "n < counter st2" "accepted (cssText st1) n"
      "t = toString34 n" unfolding extends_def by blast
    moreover from e1 have "counter st \<le> counter st1" "cssText st1 = cssText st"
      by (simp_all add: extends_def)
    ultimately show ?thesis by (intro exI[of _ n]) simp
  next
    case (Some t1)
    with e2 have "items st2 k = Some t1" by (auto simp: extends_def map_le_def dom_def)
    with k2 have "t1 = t" by simp
    with Some e1 k0 obtain n where "counter st \<le> n" "n < counter st1" "accepted (cssText st) n"
      "t = toString34 n" unfolding extends_def by blast
    moreover from e2 have "counter st1 \<le> counter st2" by (simp add: extends_def)
    ultimately show ?thesis by (intro exI[of _ n]) simp
  qed
  from e1 e2 have "table_ok st2" "items st \<subseteq>\<^sub>m items st2" "counter st \<le> counter st2"
    "count st2 = count st" "config st2 = config st" "classes st2 = classes st"
    "cssText st2 = cssText st"
    by (auto simp: extends_def intro: map_le_trans)
  with look new show ?thesis unfolding extends_def by blast
qed

lemma extends_table_ok: "extends st st' \<Longrightarrow> table_ok st'"
  by (simp add: extends_def)

lemma css_callback_extends:
  assumes ok: "table_ok st" and cb: "css_callback has_not a st = Some (r, st')"
  shows "extends st st'"
proof (cases "\<not> truthy (items_get (items st) (remove1 CHR ''.'' a)) \<and> has_not")
  case False
  with cb have "st' = st" by (auto simp: css_callback_def Let_def)
  with ok show ?thesis by (simp add: extends_refl)
next
  case True
  then have f: "\<not> truthy (items_get (items st) (remove1 CHR ''.'' a))" by simp
  from True cb obtain tok st1 where s: "succ st = Some (tok, st1)"
    and e: "st' = st1\<lparr>items := (items st1)(remove1 CHR ''.'' a \<mapsto> tok)\<rparr>"
    by (auto simp: css_callback_def Let_def split: option.splits)
  from ok have "counter st \<le> 9007199254740992" by (simp add: table_ok_def)
  from succ_result_exact[OF s this] obtain n where n: "counter st \<le> n" "tok = toString34 n"
    "st1 = st\<lparr>counter := Suc n\<rparr>" and nl: "n < 9007199254740992"
    and acc: "accepted (cssText st) n" by auto
  have none: "items st (remove1 CHR ''.'' a) = None" by (rule falsy_None[OF ok f])
  from ok have toks: "\<forall>t\<in>ran (items st). token_below (counter st) t" by (simp add: table_ok_def)
  have fresh: "tok \<notin> ran (items st)"
    unfolding n(2) using toks token_below_fresh[OF _ n(1)] by auto
  have st': "st' = st\<lparr>items := (items st)(remove1 CHR ''.'' a \<mapsto> tok), counter := Suc n\<rparr>"
    by (simp add: e n(3))
  have t: "table_ok st'" unfolding st'
    by (rule table_ok_insert[OF ok none _ fresh]) (use n nl in \<open>auto simp: token_below_new\<close>)
  have le: "items st \<subseteq>\<^sub>m (items st)(remove1 CHR ''.'' a \<mapsto> tok)"
    using none by (auto simp: map_le_def)
  have look: "items_get (items st') k = items_get (items st) k"
    if "truthy (items_get (items st) k)" for k
  proof -
    from that f have "k \<noteq> remove1 CHR ''.'' a" by auto
    then show ?thesis by (simp add: st' items_get_def)
  qed
  have new: "\<exists>m. counter st \<le> m \<and> m < counter st' \<and> accepted (cssText st) m \<and> t = toString34 m"
    if "items st' k = Some t" "items st k = None" for k t
  proof -
    from that have "t = tok" by (cases "k = remove1 CHR ''.'' a") (simp_all add: st')
    with n acc show ?thesis by (intro exI[of _ n]) (simp add: st')
  qed
  from t n(1) le look new show ?thesis unfolding extends_def by (simp add: st')
qed

lemma replace_segs_extends:
  assumes step: "\<And>a s r s'. table_ok s \<Longrightarrow> f a s = Some (r, s') \<Longrightarrow> extends s s'"
  shows "table_ok st \<Longrightarrow> replace_segs f segs st = Some (out, st') \<Longrightarrow> extends st st'"
proof (induction segs arbitrary: st out)
  case Nil
  then show ?case by (simp add: extends_refl)
next
  case (Cons sg segs)
  obtain pre m where sg: "sg = (pre, m)" by (cases sg)
  from Cons.prems(2) obtain r st1 out1 where
    a: "f m st = Some (r, st1)" and b: "replace_segs f segs st1 = Some (out1, st')"
    by (auto simp: sg split: option.splits)
  have e1: "extends st st1" by (rule step[OF Cons.prems(1) a])
  have "extends st1 st'" by (rule Cons.IH[OF extends_table_ok[OF e1] b])
  with e1 show ?case by (rule extends_trans)
qed

lemma str_replace_extends:
  assumes step: "\<And>a s r s'. table_ok s \<Longrightarrow> f a s = Some (r, s') \<Longrightarrow> extends s s'"
  shows "table_ok st \<Longrightarrow> str_replace rx f v st = Some (v', st') \<Longrightarrow> extends st st'"
proof -
  assume ok: "table_ok st" and r: "str_replace rx f v st = Some (v', st')"
  then obtain segs out where "replace_segs f segs st = Some (out, st')"
    by (auto simp: str_replace_def split: prod.splits option.splits)
  with ok show ?thesis using step by (rule replace_segs_extends[rotated])
qed

lemma rewrite_selectors_extends:
  "table_ok st \<Longrightarrow> rewrite_selectors rx hn sels st = Some (news, st') \<Longrightarrow> extends st st'"
proof (induction sels arbitrary: st news)
  case Nil
  then show ?case by (simp add: extends_refl)
next
  case (Cons sel sels)
  show ?case
  proof (cases "sel = []")
    case True
    with Cons.prems show ?thesis by (simp add: extends_refl)
  next
    case False
    with Cons.prems(2) obtain sel' st1 news1 where
      a: "str_replace rx (css_callback hn) sel st = Some (sel', st1)"
      and b: "rewrite_selectors rx hn sels st1 = Some (news1, st')"
      by (auto split: option.splits)
    have e1: "extends st st1"
      by (rule str_replace_extends[OF css_callback_extends Cons.prems(1) a])
    have "extends st1 st'" by (rule Cons.IH[OF extends_table_ok[OF e1] b])
    with e1 show ?thesis by (rule extends_trans)
  qed
qed

lemma rewrite_rule_extends:
  "table_ok st \<Longrightarrow> rewrite_rule rx r st = Some (r', st') \<Longrightarrow> extends st st'"
  by (cases r) (auto simp: extends_refl split: option.splits dest: rewrite_selectors_extends)

lemma rewrite_media_rules_extends:
  "table_ok st \<Longrightarrow> rewrite_media_rules rx rs st = Some (rs', st') \<Longrightarrow> extends st st'"
proof (induction rs arbitrary: st rs')
  case Nil
  then show ?case by (simp add: extends_refl)
next
  case (Cons r rs)
  from Cons.prems(2) obtain r1 st1 rs1 where
    a: "rewrite_rule rx r st = Some (r1, st1)" and b: "rewrite_media_rules rx rs st1 = Some (rs1, st')"
    by (auto split: option.splits)
  have e1: "extends st st1" by (rule rewrite_rule_extends[OF Cons.prems(1) a])
  have "extends st1 st'" by (rule Cons.IH[OF extends_table_ok[OF e1] b])
  with e1 show ?case by (rule extends_trans)
qed

lemma rewrite_top_extends:
  "table_ok st \<Longrightarrow> rewrite_rules rx [r] st = Some (rs', st') \<Longrightarrow> extends st st'"
  by (cases r) (auto split: option.splits
      dest: rewrite_media_rules_extends rewrite_selectors_extends simp: extends_refl)

lemma rewrite_rules_Cons:
  "rewrite_rules rx (r # rs) st =
     (case rewrite_rules rx [r] st of None \<Rightarrow> None
      | Some (out1, st1) \<Rightarrow>
          (case rewrite_rules rx rs st1 of None \<Rightarrow> None
           | Some (out2, st2) \<Rightarrow> Some (out1 @ out2, st2)))"
  by (cases r) (auto split: option.splits)

lemma rewrite_rules_append:
  "rewrite_rules rx (rs1 @ rs2) st =
     (case rewrite_rules rx rs1 st of None \<Rightarrow> None
      | Some (out1, st1) \<Rightarrow>
          (case rewrite_rules rx rs2 st1 of None \<Rightarrow> None
           | Some (out2, st2) \<Rightarrow> Some (out1 @ out2, st2)))"
proof (induction rs1 arbitrary: st)
  case Nil
  show ?case by (simp split: option.splits)
next
  case (Cons r rs1)
  show ?case
    by (simp only: append_Cons rewrite_rules_Cons[of rx r "rs1 @ rs2"] rewrite_rules_Cons[of rx r rs1] Cons.IH)
       (auto split: option.splits)
qed

lemma rewrite_rules_extends:
  "table_ok st \<Longrightarrow> rewrite_rules rx rs st = Some (rs', st') \<Longrightarrow> extends st st'"
proof (induction rs arbitrary: st rs')
  case Nil
  then show ?case by (simp add: extends_refl)
next
  case (Cons r rs)
  from Cons.prems(2) obtain out1 st1 out2 where
    a: "rewrite_rules rx [r] st = Some (out1, st1)" and b: "rewrite_rules rx rs st1 = Some (out2, st')"
    by (subst (asm) rewrite_rules_Cons) (auto split: option.splits)
  have e1: "extends st st1" by (rule rewrite_top_extends[OF Cons.prems(1) a])
  have "extends st1 st'" by (rule Cons.IH[OF extends_table_ok[OF e1] b])
  with e1 show ?case by (rule extends_trans)
qed

lemma generateCss_extends:
  "table_ok st \<Longrightarrow> generateCss st = Some st' \<Longrightarrow> extends st st'"
proof -
  assume ok: "table_ok st" and g: "generateCss st = Some st'"
  then obtain rx rs st1 where
    a: "rewrite_rules rx (rules st) st = Some (rs, st1)"
    and e: "st' = st1\<lparr>rules := rs, cssAst := rs\<rparr>"
    by (auto simp: generateCss_def split: option.splits)
  from rewrite_rules_extends[OF ok a] show ?thesis by (simp add: e extends_def)
qed

lemma generateCss_Some:
  assumes "generateCss st = Some st'"
  obtains rx rs st1 where "generateCssClsRegExp (config st) = Some rx"
    "rewrite_rules rx (rules st) st = Some (rs, st1)" "st' = st1\<lparr>rules := rs, cssAst := rs\<rparr>"
  using assms by (auto simp: generateCss_def split: option.splits)

section \<open>The phases of a run\<close>

lemma loaded_state:
  assumes "parseCssRules (initFilesAst (openFiles (constructor cfg) css_file) css_parsed js_parsed)
    = Some st0"
  shows "table_ok st0" "key_ok (key st0) st0" "config st0 = cfg" "jsAst st0 = js_parsed"
    "count st0 = 0" "rules st0 = css_parsed" "cssText st0 = css_file" "distinct (classes st0)"
    "items st0 = Map.empty" "counter st0 = 0" "key st0 = ''_''"
proof -
  let ?s = "initFilesAst (openFiles (constructor cfg) css_file) css_parsed js_parsed"
  from parseCssRules_frame[OF assms] have
    f: "config st0 = config ?s" "counter st0 = counter ?s" "key st0 = key ?s"
      "count st0 = count ?s" "items st0 = items ?s" "cssText st0 = cssText ?s"
      "jsAst st0 = jsAst ?s" "rules st0 = cssAst ?s" by simp_all
  have s: "config ?s = cfg" "counter ?s = 0" "key ?s = ''_''" "count ?s = 0"
    "items ?s = Map.empty" "cssText ?s = css_file" "jsAst ?s = js_parsed" "cssAst ?s = css_parsed"
    by (simp_all add: initFilesAst_def openFiles_def constructor_def)
  from f s show "config st0 = cfg" "jsAst st0 = js_parsed" "count st0 = 0" "rules st0 = css_parsed"
    "cssText st0 = css_file" "items st0 = Map.empty" "counter st0 = 0" "key st0 = ''_''"
    by simp_all
  from f s show "table_ok st0" "key_ok (key st0) st0"
    by (simp_all add: table_ok_def key_ok_def token_below_def)
  from assms show "distinct (classes st0)" by (rule classes_distinct)
qed

lemma run_phases:
  assumes p: "parseCssRules (initFilesAst (openFiles (constructor cfg) css_file) css_parsed js_parsed)
      = Some st0"
    and r: "run (constructor cfg) css_file css_parsed js_parsed = Some st2"
  obtains ns st1 where
    "traverse (cfg_replace cfg) 0 js_parsed st0 = Some (ns, st1)"
    "replace_traverse st0 = Some (st1\<lparr>jsAst := ns\<rparr>)"
    "if cfg_replaceAll cfg
     then replaceAll_loop (classes st0) (key st1) (st1\<lparr>jsAst := ns\<rparr>) = Some st2
     else st2 = st1\<lparr>jsAst := ns\<rparr>"
    "config st1 = cfg" "classes st1 = classes st0" "cssText st1 = css_file"
    "rules st1 = css_parsed"
proof -
  note l = loaded_state[OF p]
  from r p have rp: "replace st0 = Some st2" by (simp add: run_def)
  then obtain ns st1 where t: "traverse (cfg_replace cfg) 0 js_parsed st0 = Some (ns, st1)"
    by (auto simp: replace_def replace_traverse_def l split: option.splits)
  then have rt: "replace_traverse st0 = Some (st1\<lparr>jsAst := ns\<rparr>)"
    by (simp add: replace_traverse_def l)
  from traverse_frame[OF t] l have f: "config st1 = cfg" "classes st1 = classes st0"
    "cssText st1 = css_file" "rules st1 = css_parsed" by simp_all
  from rp rt f have c: "if cfg_replaceAll cfg
     then replaceAll_loop (classes st0) (key st1) (st1\<lparr>jsAst := ns\<rparr>) = Some st2
     else st2 = st1\<lparr>jsAst := ns\<rparr>"
    by (auto simp: replace_def replaceAll_def)
  from that[OF t rt c f] show ?thesis .
qed

text \<open>The invariant of the table holds after the traversal, after the run, and after every
  part of the work of \<open>generateCss\<close>, when the hook leaves the table alone.\<close>

lemma run_table:
  assumes q: "hook_keeps_table (cfg_replace cfg)"
    and p: "parseCssRules (initFilesAst (openFiles (constructor cfg) css_file) css_parsed js_parsed)
      = Some st0"
    and t: "traverse (cfg_replace cfg) 0 js_parsed st0 = Some (ns, st1)"
    and r: "run (constructor cfg) css_file css_parsed js_parsed = Some st2"
  shows "table_ok st1" "key_ok (key st1) st1" "table_ok st2" "items st1 \<subseteq>\<^sub>m items st2"
    "config st2 = cfg" "rules st2 = css_parsed" "cssText st2 = css_file"
proof -
  note l = loaded_state[OF p]
  from traverse_inv[OF t q l(1,2)] show i1: "table_ok st1" "key_ok (key st1) st1" by blast+
  from run_phases[OF p r] t obtain
    c: "if cfg_replaceAll cfg
     then replaceAll_loop (classes st0) (key st1) (st1\<lparr>jsAst := ns\<rparr>) = Some st2
     else st2 = st1\<lparr>jsAst := ns\<rparr>"
    and f: "config st1 = cfg" "classes st1 = classes st0" "cssText st1 = css_file"
      "rules st1 = css_parsed"
    by (metis Pair_inject option.inject)
  have "table_ok st2 \<and> items st1 \<subseteq>\<^sub>m items st2 \<and>
      config st2 = cfg \<and> rules st2 = css_parsed \<and> cssText st2 = css_file"
  proof (cases "cfg_replaceAll cfg")
    case False
    with c have "st2 = st1\<lparr>jsAst := ns\<rparr>" by simp
    with i1 f show "table_ok st2 \<and> items st1 \<subseteq>\<^sub>m items st2 \<and>
      config st2 = cfg \<and> rules st2 = css_parsed \<and> cssText st2 = css_file" by simp
  next
    case True
    with c have loop: "replaceAll_loop (classes st0) (key st1) (st1\<lparr>jsAst := ns\<rparr>) = Some st2"
      by simp
    from replaceAll_loop_inv[OF loop] i1 have "table_ok st2" "items st1 \<subseteq>\<^sub>m items st2" by simp_all
    moreover from replaceAll_loop_count[OF loop l(8)] f have
      "config st2 = cfg" "rules st2 = css_parsed" "cssText st2 = css_file" by simp_all
    ultimately show "table_ok st2 \<and> items st1 \<subseteq>\<^sub>m items st2 \<and>
      config st2 = cfg \<and> rules st2 = css_parsed \<and> cssText st2 = css_file" by simp
  qed
  then show "table_ok st2" "items st1 \<subseteq>\<^sub>m items st2"
    "config st2 = cfg" "rules st2 = css_parsed" "cssText st2 = css_file" by simp_all
qed

lemma table_ok_after_run:
  assumes "hook_keeps_table (cfg_replace cfg)"
    and "run (constructor cfg) css_file css_parsed js_parsed = Some st"
  shows "table_ok st"
proof -
  from assms(2) obtain st0 where
    p: "parseCssRules (initFilesAst (openFiles (constructor cfg) css_file) css_parsed js_parsed)
      = Some st0"
    by (auto simp: run_def split: option.splits)
  from run_phases[OF p assms(2)] obtain ns st1 where
    "traverse (cfg_replace cfg) 0 js_parsed st0 = Some (ns, st1)" by blast
  from run_table[OF assms(1) p this assms(2)] show ?thesis by simp
qed

lemma table_ok_during_generateCss:
  "hook_keeps_table (cfg_replace cfg) \<Longrightarrow>
   run (constructor cfg) css_file css_parsed js_parsed = Some st \<Longrightarrow>
   rewrite_rules rx rs st = Some (out, st') \<Longrightarrow> table_ok st'"
  using table_ok_after_run rewrite_rules_extends extends_table_ok by blast

text \<open>The count after the traversal and after the run, when the hook leaves the count
  alone.\<close>

lemma run_count:
  assumes q: "hook_keeps_count (cfg_replace cfg)"
    and p: "parseCssRules (initFilesAst (openFiles (constructor cfg) css_file) css_parsed js_parsed)
      = Some st0"
    and t: "traverse (cfg_replace cfg) 0 js_parsed st0 = Some (ns, st1)"
    and r: "run (constructor cfg) css_file css_parsed js_parsed = Some st2"
  shows "count st2 =
    min (sum_list (map (literal_occurrences cfg (classes st0))
           (entered_literals (cfg_replace cfg) 0 js_parsed st0)) +
         (if cfg_replaceAll cfg then length (unregistered (items st1) (classes st0)) else 0))
        9007199254740992"
proof -
  note l = loaded_state[OF p]
  let ?n1 = "sum_list (map (literal_occurrences cfg (classes st0))
           (entered_literals (cfg_replace cfg) 0 js_parsed st0))"
  from traverse_count[OF t q] l have c1: "count st1 = (js_incr ^^ ?n1) 0" by simp
  from run_phases[OF p r] t obtain
    c: "if cfg_replaceAll cfg
     then replaceAll_loop (classes st0) (key st1) (st1\<lparr>jsAst := ns\<rparr>) = Some st2
     else st2 = st1\<lparr>jsAst := ns\<rparr>"
    by (metis Pair_inject option.inject)
  show ?thesis
  proof (cases "cfg_replaceAll cfg")
    case False
    with c have "st2 = st1\<lparr>jsAst := ns\<rparr>" by simp
    with False c1 show ?thesis by (simp add: js_incr_funpow)
  next
    case True
    with c have loop: "replaceAll_loop (classes st0) (key st1) (st1\<lparr>jsAst := ns\<rparr>) = Some st2"
      by simp
    from replaceAll_loop_count[OF loop l(8)] have
      "count st2 = (js_incr ^^ length (unregistered (items st1) (classes st0))) (count st1)"
      by simp
    with c1 have "count st2 =
        (js_incr ^^ (length (unregistered (items st1) (classes st0)) + ?n1)) 0"
      by (simp add: funpow_add)
    with True show ?thesis by (simp add: js_incr_funpow add.commute)
  qed
qed

section \<open>Claims about the table and the count\<close>

text \<open>
  Claim C6, as amended. For every run whose hook leaves the table, the pending key and the
  counter as it finds them, with any prefix or expression in the configuration, any
  stylesheet and any script: the table is injective after the run, after \<open>generateCss\<close>,
  after every initial part of the traversal of the script and after every initial part of
  the rule list in \<open>generateCss\<close>; each of these tables is contained in the later ones,
  so an entry is never reassigned. (The default hook \<open>emptyFn\<close> is such a hook,
  \<open>emptyFn_keeps\<close>.)
\<close>

theorem table_injective:
  assumes q: "hook_keeps_table (cfg_replace cfg)"
    and p: "parseCssRules (initFilesAst (openFiles (constructor cfg) css_file) css_parsed js_parsed)
      = Some st0"
    and r: "run (constructor cfg) css_file css_parsed js_parsed = Some st"
    and g: "generateCss st = Some st'"
  shows "inj_on (items st) (dom (items st)) \<and> inj_on (items st') (dom (items st')) \<and>
    items st \<subseteq>\<^sub>m items st' \<and>
    (\<forall>ns1 ns2 out sti. js_parsed = ns1 @ ns2 \<longrightarrow>
       traverse (cfg_replace cfg) 0 ns1 st0 = Some (out, sti) \<longrightarrow>
       inj_on (items sti) (dom (items sti)) \<and> items sti \<subseteq>\<^sub>m items st) \<and>
    (\<forall>rx rs1 rs2 out stj. generateCssClsRegExp cfg = Some rx \<longrightarrow> css_parsed = rs1 @ rs2 \<longrightarrow>
       rewrite_rules rx rs1 st = Some (out, stj) \<longrightarrow>
       inj_on (items stj) (dom (items stj)) \<and> items st \<subseteq>\<^sub>m items stj \<and> items stj \<subseteq>\<^sub>m items st')"
proof -
  note l = loaded_state[OF p]
  from run_phases[OF p r] obtain ns st1 where
    t: "traverse (cfg_replace cfg) 0 js_parsed st0 = Some (ns, st1)" by blast
  note rt = run_table[OF q p t r]
  from generateCss_extends[OF rt(3) g] have e3: "table_ok st'" "items st \<subseteq>\<^sub>m items st'"
    by (simp_all add: extends_def)
  from g obtain rx0 rs st3 where
    rx0: "generateCssClsRegExp (config st) = Some rx0"
    and rr: "rewrite_rules rx0 (rules st) st = Some (rs, st3)"
    and st3: "st' = st3\<lparr>rules := rs, cssAst := rs\<rparr>"
    by (rule generateCss_Some)
  have p1: "inj_on (items sti) (dom (items sti)) \<and> items sti \<subseteq>\<^sub>m items st"
    if "js_parsed = ns1 @ ns2" "traverse (cfg_replace cfg) 0 ns1 st0 = Some (out, sti)"
    for ns1 ns2 out sti
  proof -
    from traverse_inv[OF that(2) q l(1,2)] have i: "table_ok sti" "key_ok (key sti) sti" by blast+
    from t that obtain out2 where
      "traverse (cfg_replace cfg) (0 + length ns1) ns2 sti = Some (out2, st1)"
      by (auto simp: traverse_append split: option.splits)
    from traverse_inv[OF this q i] have "items sti \<subseteq>\<^sub>m items st1" by blast
    with rt(4) i(1) show ?thesis by (auto simp: table_ok_def intro: map_le_trans)
  qed
  have p2: "inj_on (items stj) (dom (items stj)) \<and> items st \<subseteq>\<^sub>m items stj \<and> items stj \<subseteq>\<^sub>m items st'"
    if "generateCssClsRegExp cfg = Some rx" "css_parsed = rs1 @ rs2"
      "rewrite_rules rx rs1 st = Some (out, stj)"
    for rx rs1 rs2 out stj
  proof -
    from that(1) rx0 rt(5) have "rx0 = rx" by simp
    from rewrite_rules_extends[OF rt(3) that(3)] have j: "table_ok stj" "items st \<subseteq>\<^sub>m items stj"
      by (simp_all add: extends_def)
    from rr that \<open>rx0 = rx\<close> rt(6) obtain out2 where
      "rewrite_rules rx rs2 stj = Some (out2, st3)"
      by (auto simp: rewrite_rules_append split: option.splits)
    from rewrite_rules_extends[OF j(1) this] have "items stj \<subseteq>\<^sub>m items st'"
      by (simp add: extends_def st3)
    with j show ?thesis by (simp add: table_ok_def)
  qed
  from rt(3) e3 have "inj_on (items st) (dom (items st))" "inj_on (items st') (dom (items st'))"
    by (simp_all add: table_ok_def)
  with e3(2) p1 p2 show ?thesis by blast
qed

theorem table_injective_witness:
  "hook_keeps_table (cfg_replace default_config)
   \<and> parseCssRules (initFilesAst (openFiles (constructor default_config) ''.foo{} .bar:not(.baz){}'')
        [Rule [''.foo''] [], Rule [''.bar:not(.baz)''] []] [StringLiteral ''foo'', StringLiteral ''bar''])
     = Some \<lparr>counter = 0, config = default_config, key = ''_'', count = 0,
         items = Map.empty, cssText = ''.foo{} .bar:not(.baz){}'',
         cssAst = [Rule [''.foo''] [], Rule [''.bar:not(.baz)''] []],
         jsAst = [StringLiteral ''foo'', StringLiteral ''bar''],
         rules = [Rule [''.foo''] [], Rule [''.bar:not(.baz)''] []],
         classes = [''foo'', ''bar'', ''baz'']\<rparr>
   \<and> run (constructor default_config) ''.foo{} .bar:not(.baz){}''
       [Rule [''.foo''] [], Rule [''.bar:not(.baz)''] []] [StringLiteral ''foo'', StringLiteral ''bar'']
     = Some \<lparr>counter = 12, config = default_config, key = ''b'', count = 2,
         items = [''foo'' \<mapsto> ''_'', ''bar'' \<mapsto> ''a''], cssText = ''.foo{} .bar:not(.baz){}'',
         cssAst = [Rule [''.foo''] [], Rule [''.bar:not(.baz)''] []],
         jsAst = [StringLiteral ''_'', StringLiteral ''a''],
         rules = [Rule [''.foo''] [], Rule [''.bar:not(.baz)''] []],
         classes = [''foo'', ''bar'', ''baz'']\<rparr>
   \<and> generateCss \<lparr>counter = 12, config = default_config, key = ''b'', count = 2,
         items = [''foo'' \<mapsto> ''_'', ''bar'' \<mapsto> ''a''], cssText = ''.foo{} .bar:not(.baz){}'',
         cssAst = [Rule [''.foo''] [], Rule [''.bar:not(.baz)''] []],
         jsAst = [StringLiteral ''_'', StringLiteral ''a''],
         rules = [Rule [''.foo''] [], Rule [''.bar:not(.baz)''] []],
         classes = [''foo'', ''bar'', ''baz'']\<rparr>
     = Some \<lparr>counter = 13, config = default_config, key = ''b'', count = 2,
         items = [''foo'' \<mapsto> ''_'', ''bar'' \<mapsto> ''a'', ''baz'' \<mapsto> ''c''],
         cssText = ''.foo{} .bar:not(.baz){}'',
         cssAst = [Rule [''._''] [], Rule [''.a:not(.c)''] []],
         jsAst = [StringLiteral ''_'', StringLiteral ''a''],
         rules = [Rule [''._''] [], Rule [''.a:not(.c)''] []],
         classes = [''foo'', ''bar'', ''baz'']\<rparr>
   \<and> inj_on [''foo'' \<mapsto> ''_'', ''bar'' \<mapsto> ''a''] (dom [''foo'' \<mapsto> ''_'', ''bar'' \<mapsto> ''a''])
   \<and> inj_on [''foo'' \<mapsto> ''_'', ''bar'' \<mapsto> ''a'', ''baz'' \<mapsto> ''c'']
         (dom [''foo'' \<mapsto> ''_'', ''bar'' \<mapsto> ''a'', ''baz'' \<mapsto> ''c''])
   \<and> traverse (cfg_replace default_config) 0 [StringLiteral ''foo'']
        \<lparr>counter = 0, config = default_config, key = ''_'', count = 0,
         items = Map.empty, cssText = ''.foo{} .bar:not(.baz){}'',
         cssAst = [Rule [''.foo''] [], Rule [''.bar:not(.baz)''] []],
         jsAst = [StringLiteral ''foo'', StringLiteral ''bar''],
         rules = [Rule [''.foo''] [], Rule [''.bar:not(.baz)''] []],
         classes = [''foo'', ''bar'', ''baz'']\<rparr>
     = Some ([StringLiteral ''_''],
         \<lparr>counter = 11, config = default_config, key = ''a'', count = 1,
          items = [''foo'' \<mapsto> ''_''], cssText = ''.foo{} .bar:not(.baz){}'',
          cssAst = [Rule [''.foo''] [], Rule [''.bar:not(.baz)''] []],
          jsAst = [StringLiteral ''foo'', StringLiteral ''bar''],
          rules = [Rule [''.foo''] [], Rule [''.bar:not(.baz)''] []],
          classes = [''foo'', ''bar'', ''baz'']\<rparr>)
   \<and> [''foo'' \<mapsto> ''_''] \<subseteq>\<^sub>m [''foo'' \<mapsto> ''_'', ''bar'' \<mapsto> ''a'']
   \<and> generateCssClsRegExp default_config = Some CssCls
   \<and> rewrite_rules CssCls [Rule [''.foo''] [], Rule [''.bar:not(.baz)''] []]
        \<lparr>counter = 12, config = default_config, key = ''b'', count = 2,
         items = [''foo'' \<mapsto> ''_'', ''bar'' \<mapsto> ''a''], cssText = ''.foo{} .bar:not(.baz){}'',
         cssAst = [Rule [''.foo''] [], Rule [''.bar:not(.baz)''] []],
         jsAst = [StringLiteral ''_'', StringLiteral ''a''],
         rules = [Rule [''.foo''] [], Rule [''.bar:not(.baz)''] []],
         classes = [''foo'', ''bar'', ''baz'']\<rparr>
     = Some ([Rule [''._''] [], Rule [''.a:not(.c)''] []],
        \<lparr>counter = 13, config = default_config, key = ''b'', count = 2,
         items = [''foo'' \<mapsto> ''_'', ''bar'' \<mapsto> ''a'', ''baz'' \<mapsto> ''c''],
         cssText = ''.foo{} .bar:not(.baz){}'',
         cssAst = [Rule [''.foo''] [], Rule [''.bar:not(.baz)''] []],
         jsAst = [StringLiteral ''_'', StringLiteral ''a''],
         rules = [Rule [''.foo''] [], Rule [''.bar:not(.baz)''] []],
         classes = [''foo'', ''bar'', ''baz'']\<rparr>)
   \<and> [''foo'' \<mapsto> ''_'', ''bar'' \<mapsto> ''a''] \<subseteq>\<^sub>m [''foo'' \<mapsto> ''_'', ''bar'' \<mapsto> ''a'', ''baz'' \<mapsto> ''c'']"
proof -
  let ?css = "''.foo{} .bar:not(.baz){}''"
  let ?ast = "[Rule [''.foo''] [], Rule [''.bar:not(.baz)''] []]"
  let ?js = "[StringLiteral ''foo'', StringLiteral ''bar'']"
  let ?c0 = "\<lparr>counter = 0, config = default_config, key = ''_'', count = 0,
         items = Map.empty, cssText = ?css, cssAst = ?ast, jsAst = ?js, rules = ?ast,
         classes = [''foo'', ''bar'', ''baz'']\<rparr>"
  let ?c1 = "\<lparr>counter = 12, config = default_config, key = ''b'', count = 2,
         items = [''foo'' \<mapsto> ''_'', ''bar'' \<mapsto> ''a''], cssText = ?css,
         cssAst = ?ast, jsAst = [StringLiteral ''_'', StringLiteral ''a''],
         rules = ?ast, classes = [''foo'', ''bar'', ''baz'']\<rparr>"
  let ?c2 = "\<lparr>counter = 13, config = default_config, key = ''b'', count = 2,
         items = [''foo'' \<mapsto> ''_'', ''bar'' \<mapsto> ''a'', ''baz'' \<mapsto> ''c''],
         cssText = ?css,
         cssAst = [Rule [''._''] [], Rule [''.a:not(.c)''] []],
         jsAst = [StringLiteral ''_'', StringLiteral ''a''],
         rules = [Rule [''._''] [], Rule [''.a:not(.c)''] []],
         classes = [''foo'', ''bar'', ''baz'']\<rparr>"
  let ?ci = "\<lparr>counter = 11, config = default_config, key = ''a'', count = 1,
          items = [''foo'' \<mapsto> ''_''], cssText = ?css,
          cssAst = ?ast, jsAst = ?js, rules = ?ast, classes = [''foo'', ''bar'', ''baz'']\<rparr>"
  let ?cj = "\<lparr>counter = 13, config = default_config, key = ''b'', count = 2,
         items = [''foo'' \<mapsto> ''_'', ''bar'' \<mapsto> ''a'', ''baz'' \<mapsto> ''c''],
         cssText = ?css, cssAst = ?ast, jsAst = [StringLiteral ''_'', StringLiteral ''a''],
         rules = ?ast, classes = [''foo'', ''bar'', ''baz'']\<rparr>"
  have h0: "hook_keeps_table (cfg_replace default_config)"
    by (simp add: default_config_def emptyFn_keeps)
  have hp: "parseCssRules (initFilesAst (openFiles (constructor default_config) ?css) ?ast ?js) = Some ?c0"
    by (simp add: eval_defs)
  have h1: "run (constructor default_config) ?css ?ast ?js = Some ?c1"
    by (simp add: eval_defs)
  have h2: "generateCss ?c1 = Some ?c2"
    by (simp add: eval_defs)
  have h3: "traverse (cfg_replace default_config) 0 [StringLiteral ''foo''] ?c0
     = Some ([StringLiteral ''_''], ?ci)"
    by (simp add: eval_defs)
  have rx: "generateCssClsRegExp default_config = Some CssCls" by (simp add: eval_defs)
  have h4: "rewrite_rules CssCls ?ast ?c1 = Some ([Rule [''._''] [], Rule [''.a:not(.c)''] []], ?cj)"
    by (simp add: eval_defs)
  note t = table_injective[OF h0 hp h1 h2]
  from t have b: "inj_on (items ?c1) (dom (items ?c1))" "inj_on (items ?c2) (dom (items ?c2))"
    by blast+
  have sp: "?js = [StringLiteral ''foo''] @ [StringLiteral ''bar'']" by simp
  from t sp h3 have e: "items ?ci \<subseteq>\<^sub>m items ?c1" by blast
  have sp2: "?ast = ?ast @ []" by simp
  from t rx sp2 h4 have f: "items ?c1 \<subseteq>\<^sub>m items ?cj" by blast
  from b e f show ?thesis using h0 hp h1 h2 h3 rx h4 by simp
qed

theorem table_injective_counterexample:
  "run (constructor (default_config\<lparr>cfg_replace := pinning_hook\<rparr>)) ''.logo{} .foo{} .bar{}''
       [Rule [''.logo''] [], Rule [''.foo''] [], Rule [''.bar''] []]
       [StringLiteral ''logo'', StringLiteral ''foo'', StringLiteral ''bar'']
     = Some \<lparr>counter = 12, config = default_config\<lparr>cfg_replace := pinning_hook\<rparr>, key = ''b'',
         count = 2, items = [''logo'' \<mapsto> ''a'', ''foo'' \<mapsto> ''_'', ''bar'' \<mapsto> ''a''],
         cssText = ''.logo{} .foo{} .bar{}'',
         cssAst = [Rule [''.logo''] [], Rule [''.foo''] [], Rule [''.bar''] []],
         jsAst = [StringLiteral ''logo'', StringLiteral ''_'', StringLiteral ''a''],
         rules = [Rule [''.logo''] [], Rule [''.foo''] [], Rule [''.bar''] []],
         classes = [''logo'', ''foo'', ''bar'']\<rparr>
   \<and> [''logo'' \<mapsto> ''a'', ''foo'' \<mapsto> ''_'', ''bar'' \<mapsto> ''a''] ''logo'' = Some ''a''
   \<and> [''logo'' \<mapsto> ''a'', ''foo'' \<mapsto> ''_'', ''bar'' \<mapsto> ''a''] ''bar'' = Some ''a''
   \<and> ''logo'' \<noteq> ''bar''"
  by (simp add: eval_defs pinning_hook_def)

text \<open>\<open>generateCss\<close> has no increment of the count.\<close>

lemma css_callback_count: "css_callback hn a st = Some (r, st') \<Longrightarrow> count st' = count st"
  by (auto simp: css_callback_def Let_def split: if_splits option.splits dest!: succ_frame)

lemma replace_segs_count_kept:
  assumes step: "\<And>a s r s'. f a s = Some (r, s') \<Longrightarrow> count s' = count s"
  shows "replace_segs f segs st = Some (out, st') \<Longrightarrow> count st' = count st"
proof (induction segs arbitrary: st out)
  case Nil
  then show ?case by simp
next
  case (Cons sg segs)
  obtain pre m where sg: "sg = (pre, m)" by (cases sg)
  from Cons.prems obtain r st1 out1 where
    a: "f m st = Some (r, st1)" and b: "replace_segs f segs st1 = Some (out1, st')"
    by (auto simp: sg split: option.splits)
  from step[OF a] Cons.IH[OF b] show ?case by simp
qed

lemma str_replace_count_kept:
  assumes step: "\<And>a s r s'. f a s = Some (r, s') \<Longrightarrow> count s' = count s"
  shows "str_replace rx f v st = Some (v', st') \<Longrightarrow> count st' = count st"
proof -
  assume "str_replace rx f v st = Some (v', st')"
  then obtain segs out where "replace_segs f segs st = Some (out, st')"
    by (auto simp: str_replace_def split: prod.splits option.splits)
  then show ?thesis using step by (rule replace_segs_count_kept[rotated])
qed

lemma rewrite_selectors_count:
  "rewrite_selectors rx hn sels st = Some (news, st') \<Longrightarrow> count st' = count st"
proof (induction sels arbitrary: st news)
  case Nil
  then show ?case by simp
next
  case (Cons sel sels)
  show ?case
  proof (cases "sel = []")
    case True
    with Cons.prems show ?thesis by simp
  next
    case False
    with Cons.prems obtain sel' st1 news1 where
      a: "str_replace rx (css_callback hn) sel st = Some (sel', st1)"
      and b: "rewrite_selectors rx hn sels st1 = Some (news1, st')"
      by (auto split: option.splits)
    from str_replace_count_kept[OF css_callback_count a] Cons.IH[OF b] show ?thesis by simp
  qed
qed

lemma rewrite_rule_count: "rewrite_rule rx r st = Some (r', st') \<Longrightarrow> count st' = count st"
  by (cases r) (auto split: option.splits dest: rewrite_selectors_count)

lemma rewrite_media_rules_count:
  "rewrite_media_rules rx rs st = Some (rs', st') \<Longrightarrow> count st' = count st"
proof (induction rs arbitrary: st rs')
  case Nil
  then show ?case by simp
next
  case (Cons r rs)
  from Cons.prems obtain r1 st1 rs1 where
    a: "rewrite_rule rx r st = Some (r1, st1)" and b: "rewrite_media_rules rx rs st1 = Some (rs1, st')"
    by (auto split: option.splits)
  from rewrite_rule_count[OF a] Cons.IH[OF b] show ?case by simp
qed

lemma rewrite_rules_count:
  "rewrite_rules rx rs st = Some (rs', st') \<Longrightarrow> count st' = count st"
proof (induction rs arbitrary: st rs')
  case Nil
  then show ?case by simp
next
  case (Cons r rs)
  from Cons.prems obtain out1 st1 out2 where
    a: "rewrite_rules rx [r] st = Some (out1, st1)" and b: "rewrite_rules rx rs st1 = Some (out2, st')"
    by (subst (asm) rewrite_rules_Cons) (auto split: option.splits)
  from a have "count st1 = count st"
    by (cases r)
      (auto split: option.splits dest: rewrite_media_rules_count rewrite_selectors_count)
  with Cons.IH[OF b] show ?case by simp
qed

lemma generateCss_count: "generateCss st = Some st' \<Longrightarrow> count st' = count st"
  by (erule generateCss_Some) (auto dest: rewrite_rules_count)

text \<open>
  Claim C3, as amended. After a run whose hook leaves the count as it finds it,
  \<open>getReplacementsCount()\<close> is the number of substrings replaced in the string literals
  that the traversal hands to \<open>replaceItem\<close> (with the default hook: in all string
  literals of the script), plus, under \<open>replaceAll\<close>, the number of class names of the
  catalog whose lookup in \<open>replacements.items\<close> is falsy when the traversal has ended:
  those are the names that \<open>replaceAll\<close> registers, and a name that the lookup finds on
  \<open>Object.prototype\<close>, such as \<open>constructor\<close>, is not among them although it has no
  entry in the table. The count is a double and stops at \<open>2^53\<close>. \<open>generateCss\<close>
  leaves the count as it is, so replacements in selectors are not counted.
\<close>

theorem replacements_count:
  assumes q: "hook_keeps_count (cfg_replace cfg)"
    and p: "parseCssRules (initFilesAst (openFiles (constructor cfg) css_file) css_parsed js_parsed)
      = Some st0"
    and t: "replace_traverse st0 = Some st1"
    and r: "run (constructor cfg) css_file css_parsed js_parsed = Some st2"
    and g: "generateCss st2 = Some st3"
  shows "getReplacementsCount st2 =
      min (sum_list (map (literal_occurrences cfg (classes st0))
             (entered_literals (cfg_replace cfg) 0 js_parsed st0)) +
           (if cfg_replaceAll cfg then length (unregistered (items st1) (classes st0)) else 0))
          9007199254740992 \<and>
    getReplacementsCount st3 = getReplacementsCount st2 \<and>
    (cfg_replace cfg = emptyFn \<longrightarrow>
       entered_literals (cfg_replace cfg) 0 js_parsed st0 = string_literals js_parsed)"
proof -
  from run_phases[OF p r] obtain ns st1' where
    tr: "traverse (cfg_replace cfg) 0 js_parsed st0 = Some (ns, st1')"
    and rt: "replace_traverse st0 = Some (st1'\<lparr>jsAst := ns\<rparr>)" by blast
  from rt t have "items st1 = items st1'" by auto
  with run_count[OF q p tr r] have "getReplacementsCount st2 =
      min (sum_list (map (literal_occurrences cfg (classes st0))
             (entered_literals (cfg_replace cfg) 0 js_parsed st0)) +
           (if cfg_replaceAll cfg then length (unregistered (items st1) (classes st0)) else 0))
          9007199254740992"
    by (simp add: getReplacementsCount_def)
  moreover from generateCss_count[OF g] have "getReplacementsCount st3 = getReplacementsCount st2"
    by (simp add: getReplacementsCount_def)
  moreover have "entered_literals (cfg_replace cfg) 0 js_parsed st0 = string_literals js_parsed"
    if "cfg_replace cfg = emptyFn"
    using tr entered_literals_emptyFn[of 0 js_parsed st0 ns st1'] that by simp
  ultimately show ?thesis by blast
qed

theorem replacements_count_witness:
  "hook_keeps_count (cfg_replace (default_config\<lparr>cfg_replaceAll := True\<rparr>))
   \<and> parseCssRules (initFilesAst (openFiles (constructor (default_config\<lparr>cfg_replaceAll := True\<rparr>))
          ''.constructor{} .foo{} .bar{}'')
        [Rule [''.constructor''] [], Rule [''.foo''] [], Rule [''.bar''] []] [StringLiteral ''foo foo''])
     = Some \<lparr>counter = 0, config = default_config\<lparr>cfg_replaceAll := True\<rparr>, key = ''_'', count = 0,
         items = Map.empty, cssText = ''.constructor{} .foo{} .bar{}'',
         cssAst = [Rule [''.constructor''] [], Rule [''.foo''] [], Rule [''.bar''] []],
         jsAst = [StringLiteral ''foo foo''],
         rules = [Rule [''.constructor''] [], Rule [''.foo''] [], Rule [''.bar''] []],
         classes = [''constructor'', ''foo'', ''bar'']\<rparr>
   \<and> replace_traverse \<lparr>counter = 0, config = default_config\<lparr>cfg_replaceAll := True\<rparr>, key = ''_'',
         count = 0, items = Map.empty, cssText = ''.constructor{} .foo{} .bar{}'',
         cssAst = [Rule [''.constructor''] [], Rule [''.foo''] [], Rule [''.bar''] []],
         jsAst = [StringLiteral ''foo foo''],
         rules = [Rule [''.constructor''] [], Rule [''.foo''] [], Rule [''.bar''] []],
         classes = [''constructor'', ''foo'', ''bar'']\<rparr>
     = Some \<lparr>counter = 11, config = default_config\<lparr>cfg_replaceAll := True\<rparr>, key = ''a'', count = 2,
         items = [''foo'' \<mapsto> ''_''], cssText = ''.constructor{} .foo{} .bar{}'',
         cssAst = [Rule [''.constructor''] [], Rule [''.foo''] [], Rule [''.bar''] []],
         jsAst = [StringLiteral ''_ _''],
         rules = [Rule [''.constructor''] [], Rule [''.foo''] [], Rule [''.bar''] []],
         classes = [''constructor'', ''foo'', ''bar'']\<rparr>
   \<and> run (constructor (default_config\<lparr>cfg_replaceAll := True\<rparr>)) ''.constructor{} .foo{} .bar{}''
        [Rule [''.constructor''] [], Rule [''.foo''] [], Rule [''.bar''] []] [StringLiteral ''foo foo'']
     = Some \<lparr>counter = 12, config = default_config\<lparr>cfg_replaceAll := True\<rparr>, key = ''a'', count = 3,
         items = [''foo'' \<mapsto> ''_'', ''bar'' \<mapsto> ''a''], cssText = ''.constructor{} .foo{} .bar{}'',
         cssAst = [Rule [''.constructor''] [], Rule [''.foo''] [], Rule [''.bar''] []],
         jsAst = [StringLiteral ''_ _''],
         rules = [Rule [''.constructor''] [], Rule [''.foo''] [], Rule [''.bar''] []],
         classes = [''constructor'', ''foo'', ''bar'']\<rparr>
   \<and> map_option getReplacementsCount (generateCss
        \<lparr>counter = 12, config = default_config\<lparr>cfg_replaceAll := True\<rparr>, key = ''a'', count = 3,
         items = [''foo'' \<mapsto> ''_'', ''bar'' \<mapsto> ''a''], cssText = ''.constructor{} .foo{} .bar{}'',
         cssAst = [Rule [''.constructor''] [], Rule [''.foo''] [], Rule [''.bar''] []],
         jsAst = [StringLiteral ''_ _''],
         rules = [Rule [''.constructor''] [], Rule [''.foo''] [], Rule [''.bar''] []],
         classes = [''constructor'', ''foo'', ''bar'']\<rparr>) = Some 3
   \<and> entered_literals emptyFn 0 [StringLiteral ''foo foo'']
        \<lparr>counter = 0, config = default_config\<lparr>cfg_replaceAll := True\<rparr>, key = ''_'',
         count = 0, items = Map.empty, cssText = ''.constructor{} .foo{} .bar{}'',
         cssAst = [Rule [''.constructor''] [], Rule [''.foo''] [], Rule [''.bar''] []],
         jsAst = [StringLiteral ''foo foo''],
         rules = [Rule [''.constructor''] [], Rule [''.foo''] [], Rule [''.bar''] []],
         classes = [''constructor'', ''foo'', ''bar'']\<rparr> = [''foo foo'']
   \<and> literal_occurrences (default_config\<lparr>cfg_replaceAll := True\<rparr>)
        [''constructor'', ''foo'', ''bar''] ''foo foo'' = 2
   \<and> unregistered [''foo'' \<mapsto> ''_''] [''constructor'', ''foo'', ''bar''] = [''bar'']
   \<and> (3::nat) = min (2 + 1) 9007199254740992"
proof -
  let ?cfg = "default_config\<lparr>cfg_replaceAll := True\<rparr>"
  let ?css = "''.constructor{} .foo{} .bar{}''"
  let ?ast = "[Rule [''.constructor''] [], Rule [''.foo''] [], Rule [''.bar''] []]"
  let ?js = "[StringLiteral ''foo foo'']"
  let ?c0 = "\<lparr>counter = 0, config = ?cfg, key = ''_'', count = 0, items = Map.empty,
         cssText = ?css, cssAst = ?ast, jsAst = ?js, rules = ?ast,
         classes = [''constructor'', ''foo'', ''bar'']\<rparr>"
  let ?t1 = "\<lparr>counter = 11, config = ?cfg, key = ''a'', count = 2,
         items = [''foo'' \<mapsto> ''_''], cssText = ?css, cssAst = ?ast,
         jsAst = [StringLiteral ''_ _''], rules = ?ast,
         classes = [''constructor'', ''foo'', ''bar'']\<rparr>"
  let ?t2 = "\<lparr>counter = 12, config = ?cfg, key = ''a'', count = 3,
         items = [''foo'' \<mapsto> ''_'', ''bar'' \<mapsto> ''a''], cssText = ?css, cssAst = ?ast,
         jsAst = [StringLiteral ''_ _''], rules = ?ast,
         classes = [''constructor'', ''foo'', ''bar'']\<rparr>"
  have h0: "hook_keeps_count (cfg_replace ?cfg)" by (simp add: default_config_def emptyFn_keeps)
  have hp: "parseCssRules (initFilesAst (openFiles (constructor ?cfg) ?css) ?ast ?js) = Some ?c0"
    by (simp add: eval_defs)
  have h1: "replace_traverse ?c0 = Some ?t1" by (simp add: eval_defs)
  have h2: "run (constructor ?cfg) ?css ?ast ?js = Some ?t2" by (simp add: eval_defs)
  obtain t3 where h3: "generateCss ?t2 = Some t3" by (simp add: eval_defs)
  have hk: "cfg_replace ?cfg = emptyFn" by (simp add: default_config_def)
  have el: "entered_literals emptyFn 0 ?js ?c0 = [''foo foo'']"
    by (simp add: eval_defs)
  have lo: "literal_occurrences ?cfg [''constructor'', ''foo'', ''bar''] ''foo foo'' = 2"
    by (simp add: literal_occurrences_def occurrences_def eval_defs)
  have un: "unregistered [''foo'' \<mapsto> ''_''] [''constructor'', ''foo'', ''bar''] = [''bar'']"
    by (simp add: unregistered_def eval_defs)
  note th = replacements_count[OF h0 hp h1 h2 h3]
  from th have c3: "getReplacementsCount t3 = getReplacementsCount ?t2" by blast
  have "getReplacementsCount ?t2 = 3" by (simp add: getReplacementsCount_def)
  with c3 h3 have g3: "map_option getReplacementsCount (generateCss ?t2) = Some 3" by simp
  have m: "(3::nat) = min (2 + 1) 9007199254740992" by simp
  show ?thesis using h0 hp h1 h2 g3 el lo un m by (intro conjI)
qed

theorem replacements_count_counterexample:
  "map_option getReplacementsCount
     (Option.bind (run (constructor default_config) ''.foo{color:red}''
        [Rule [''.foo''] ''color:red''] [OtherNode, OtherNode, StringLiteral ''foo'']) generateCss) = Some 1
   \<and> map (literal_occurrences default_config [''foo''])
        (string_literals [OtherNode, OtherNode, StringLiteral ''foo'']) = [1]
   \<and> selector_occurrences CssCls [Rule [''.foo''] ''color:red''] = 1
   \<and> map_option getReplacementsCount
     (Option.bind (run (constructor (default_config\<lparr>cfg_replaceAll := True\<rparr>))
        ''.foo{} .bar:not(.baz){}'' [Rule [''.foo''] [], Rule [''.bar:not(.baz)''] []]
        [StringLiteral ''foo'', StringLiteral ''bar'']) generateCss) = Some 3
   \<and> map (literal_occurrences (default_config\<lparr>cfg_replaceAll := True\<rparr>) [''foo'', ''bar'', ''baz''])
        (string_literals [StringLiteral ''foo'', StringLiteral ''bar'']) = [1, 1]
   \<and> selector_occurrences CssCls [Rule [''.foo''] [], Rule [''.bar:not(.baz)''] []] = 3
   \<and> map_option getReplacementsCount
     (Option.bind (run (constructor (default_config\<lparr>cfg_replace := counting_hook\<rparr>)) ''.foo{color:red}''
        [Rule [''.foo''] ''color:red''] [OtherNode, OtherNode, StringLiteral ''foo'']) generateCss) = Some 4"
  by (simp add: literal_occurrences_def occurrences_def counting_hook_def eval_defs)

section \<open>Rewriting the selectors of a rule\<close>

lemma rewrite_selectors_filter:
  "list_all (\<lambda>s. s \<noteq> []) sels \<Longrightarrow>
   rewrite_selectors rx hn sels st =
     (case rewrite_all rx hn sels st of None \<Rightarrow> None
      | Some (out, st') \<Rightarrow> Some (filter (\<lambda>s. \<not> contains ''undefined'' s) out, st'))"
proof (induction sels arbitrary: st)
  case Nil
  show ?case by simp
next
  case (Cons sel sels)
  then have "sel \<noteq> []" "list_all (\<lambda>s. s \<noteq> []) sels" by simp_all
  with Cons.IH show ?case by (simp split: option.splits)
qed

lemma rewrite_all_length: "rewrite_all rx hn sels st = Some (out, st') \<Longrightarrow> length out = length sels"
  by (induction sels arbitrary: st out) (auto split: option.splits)

lemma length_filter_all: "length (filter P xs) = length xs \<longleftrightarrow> list_all P xs"
proof (induction xs)
  case Nil
  show ?case by simp
next
  case (Cons x xs)
  have le: "length (filter P xs) \<le> length xs" by (rule length_filter_le)
  show ?case
  proof (cases "P x")
    case True
    with Cons show ?thesis by simp
  next
    case False
    from le have "length (filter P xs) \<noteq> Suc (length xs)" by linarith
    with False show ?thesis by simp
  qed
qed

lemma rewrite_rule_all_or_nothing:
  assumes "list_all (\<lambda>s. s \<noteq> []) sels"
    and "rewrite_all rx (contains '':not'' (join_sp sels)) sels st = Some (out, st')"
  shows "rewrite_rule rx (Rule sels decls) st =
           Some (Rule (if list_ex (contains ''undefined'') out then [] else out) decls, st')"
proof -
  let ?news = "filter (\<lambda>s. \<not> contains ''undefined'' s) out"
  have rs: "rewrite_selectors rx (contains '':not'' (join_sp sels)) sels st = Some (?news, st')"
    using assms by (simp add: rewrite_selectors_filter)
  have len: "length out = length sels" using assms(2) by (rule rewrite_all_length)
  have "length ?news = length sels \<longleftrightarrow> \<not> list_ex (contains ''undefined'') out"
    unfolding len[symmetric] length_filter_all by (simp add: list_all_iff list_ex_iff)
  moreover have "\<not> list_ex (contains ''undefined'') out \<Longrightarrow> ?news = out"
    by (simp add: list_ex_iff)
  ultimately show ?thesis using rs by auto
qed











text \<open>
  Claim C1, as amended. A rule in which at least one selector is unresolved after the
  substitution (its rewritten text contains \<open>undefined\<close>) gets the empty selector list,
  whatever the number of its resolved selectors: the rule whose only selector is unresolved,
  and also the rule with one resolved and one unresolved selector. Only when every selector
  is resolved does the rule keep its selectors, all of them rewritten.
\<close>

theorem unresolved_selector_drops_rule:
  assumes "list_all (\<lambda>s. s \<noteq> []) sels"
    and "rewrite_all rx (contains '':not'' (join_sp sels)) sels st = Some (out, st')"
  shows "rewrite_rule rx (Rule sels decls) st =
           Some (Rule (if list_ex (contains ''undefined'') out then [] else out) decls, st')"
  using assms by (rule rewrite_rule_all_or_nothing)

theorem unresolved_selector_drops_rule_witness:
  "list_all (\<lambda>s. s \<noteq> []) [''.foo'', ''.bar'']
   \<and> rewrite_all CssCls (contains '':not'' (join_sp [''.foo'', ''.bar''])) [''.foo'', ''.bar'']
        \<lparr>counter = 11, config = default_config, key = ''a'', count = 1,
         items = [''foo'' \<mapsto> ''_''], cssText = ''.foo,.bar{color:red}'',
         cssAst = [Rule [''.foo'', ''.bar''] ''color:red''], jsAst = [StringLiteral ''_''],
         rules = [Rule [''.foo'', ''.bar''] ''color:red''], classes = [''foo'', ''bar'']\<rparr>
     = Some ([''._'', ''.undefined''],
        \<lparr>counter = 11, config = default_config, key = ''a'', count = 1,
         items = [''foo'' \<mapsto> ''_''], cssText = ''.foo,.bar{color:red}'',
         cssAst = [Rule [''.foo'', ''.bar''] ''color:red''], jsAst = [StringLiteral ''_''],
         rules = [Rule [''.foo'', ''.bar''] ''color:red''], classes = [''foo'', ''bar'']\<rparr>)
   \<and> rewrite_rule CssCls (Rule [''.foo'', ''.bar''] ''color:red'')
        \<lparr>counter = 11, config = default_config, key = ''a'', count = 1,
         items = [''foo'' \<mapsto> ''_''], cssText = ''.foo,.bar{color:red}'',
         cssAst = [Rule [''.foo'', ''.bar''] ''color:red''], jsAst = [StringLiteral ''_''],
         rules = [Rule [''.foo'', ''.bar''] ''color:red''], classes = [''foo'', ''bar'']\<rparr>
     = Some (Rule [] ''color:red'',
        \<lparr>counter = 11, config = default_config, key = ''a'', count = 1,
         items = [''foo'' \<mapsto> ''_''], cssText = ''.foo,.bar{color:red}'',
         cssAst = [Rule [''.foo'', ''.bar''] ''color:red''], jsAst = [StringLiteral ''_''],
         rules = [Rule [''.foo'', ''.bar''] ''color:red''], classes = [''foo'', ''bar'']\<rparr>)"
proof -
  let ?st = "\<lparr>counter = 11, config = default_config, key = ''a'', count = 1,
         items = [''foo'' \<mapsto> ''_''], cssText = ''.foo,.bar{color:red}'',
         cssAst = [Rule [''.foo'', ''.bar''] ''color:red''], jsAst = [StringLiteral ''_''],
         rules = [Rule [''.foo'', ''.bar''] ''color:red''], classes = [''foo'', ''bar'']\<rparr>"
  have h1: "list_all (\<lambda>s. s \<noteq> []) [''.foo'', ''.bar'']" by simp
  have h2: "rewrite_all CssCls (contains '':not'' (join_sp [''.foo'', ''.bar''])) [''.foo'', ''.bar''] ?st
     = Some ([''._'', ''.undefined''], ?st)"
    by (simp add: eval_defs)
  have u: "list_ex (contains ''undefined'') [''._'', ''.undefined'']" by (simp add: eval_defs)
  from unresolved_selector_drops_rule[OF h1 h2, of "''color:red''"] u
  have "rewrite_rule CssCls (Rule [''.foo'', ''.bar''] ''color:red'') ?st = Some (Rule [] ''color:red'', ?st)"
    by (simp only: if_True)
  with h1 h2 show ?thesis by (intro conjI)
qed

theorem unresolved_selector_counterexample:
  "run (constructor default_config) ''.foo,.bar{color:red}''
       [Rule [''.foo'', ''.bar''] ''color:red''] [StringLiteral ''foo'']
     = Some \<lparr>counter = 11, config = default_config, key = ''a'', count = 1,
         items = [''foo'' \<mapsto> ''_''], cssText = ''.foo,.bar{color:red}'',
         cssAst = [Rule [''.foo'', ''.bar''] ''color:red''], jsAst = [StringLiteral ''_''],
         rules = [Rule [''.foo'', ''.bar''] ''color:red''], classes = [''foo'', ''bar'']\<rparr>
   \<and> map_option cssAst (generateCss
        \<lparr>counter = 11, config = default_config, key = ''a'', count = 1,
         items = [''foo'' \<mapsto> ''_''], cssText = ''.foo,.bar{color:red}'',
         cssAst = [Rule [''.foo'', ''.bar''] ''color:red''], jsAst = [StringLiteral ''_''],
         rules = [Rule [''.foo'', ''.bar''] ''color:red''], classes = [''foo'', ''bar'']\<rparr>)
     = Some [Rule [] ''color:red'']
   \<and> Some [Rule [] ''color:red''] \<noteq> Some [Rule [''._''] ''color:red'']"
  by (simp add: eval_defs)




section \<open>Two runs\<close>

text \<open>
  Claim C2, as amended. For the stylesheet \<open>.foo{color:red}\<close> and a script with the string
  literal \<open>"foo"\<close>, the engine with the default configuration yields the table
  \<open>{foo: "_"}\<close>: the first class name gets the initial key of the constructor. The literal
  is rewritten to \<open>"_"\<close> and the selector of the rule to \<open>._\<close>, the declarations staying
  as they are.
\<close>

theorem example_foo:
  "run (constructor default_config) ''.foo{color:red}''
       [Rule [''.foo''] ''color:red''] [OtherNode, OtherNode, StringLiteral ''foo'']
     = Some \<lparr>counter = 11, config = default_config, key = ''a'', count = 1,
         items = [''foo'' \<mapsto> ''_''], cssText = ''.foo{color:red}'',
         cssAst = [Rule [''.foo''] ''color:red''],
         jsAst = [OtherNode, OtherNode, StringLiteral ''_''],
         rules = [Rule [''.foo''] ''color:red''], classes = [''foo'']\<rparr>
   \<and> generateCss \<lparr>counter = 11, config = default_config, key = ''a'', count = 1,
         items = [''foo'' \<mapsto> ''_''], cssText = ''.foo{color:red}'',
         cssAst = [Rule [''.foo''] ''color:red''],
         jsAst = [OtherNode, OtherNode, StringLiteral ''_''],
         rules = [Rule [''.foo''] ''color:red''], classes = [''foo'']\<rparr>
     = Some \<lparr>counter = 11, config = default_config, key = ''a'', count = 1,
         items = [''foo'' \<mapsto> ''_''], cssText = ''.foo{color:red}'',
         cssAst = [Rule [''._''] ''color:red''],
         jsAst = [OtherNode, OtherNode, StringLiteral ''_''],
         rules = [Rule [''._''] ''color:red''], classes = [''foo'']\<rparr>"
  by (simp add: eval_defs)

theorem example_foo_counterexample:
  "map_option (\<lambda>st. (items st ''foo'', jsAst st))
     (run (constructor default_config) ''.foo{color:red}''
        [Rule [''.foo''] ''color:red''] [OtherNode, OtherNode, StringLiteral ''foo''])
     \<noteq> Some (Some ''0'', [OtherNode, OtherNode, StringLiteral ''0''])
   \<and> map_option cssAst
     (Option.bind (run (constructor default_config) ''.foo{color:red}''
        [Rule [''.foo''] ''color:red''] [OtherNode, OtherNode, StringLiteral ''foo'']) generateCss)
     \<noteq> Some [Rule [''.0''] ''color:red'']"
  by (simp add: eval_defs)

text \<open>
  Claim C5, refuted by the code. With the prefix \<open>d-\<close>, the stylesheet
  \<open>._{top:0} .a{top:1} .d-x{top:2} .d-y{top:3}\<close> and the literal \<open>"d-x d-y"\<close>, the table
  is \<open>{d-x: "_", d-y: "a"}\<close>: both tokens are class names of the original stylesheet, and
  the rewritten stylesheet has two rules \<open>._\<close> and two rules \<open>.a\<close>. The initial key is
  never checked against the stylesheet, and the check of \<open>succ\<close> asks for a word boundary
  before the dot, so it only finds a class that follows a word character, as in
  \<open>div.a\<close>.
\<close>

theorem token_collides_with_stylesheet_class:
  "run (constructor (default_config\<lparr>cfg_prefix := Some ''d-''\<rparr>))
       ''._{top:0} .a{top:1} .d-x{top:2} .d-y{top:3}''
       [Rule [''._''] ''top:0'', Rule [''.a''] ''top:1'', Rule [''.d-x''] ''top:2'', Rule [''.d-y''] ''top:3'']
       [StringLiteral ''d-x d-y'']
     = Some \<lparr>counter = 12, config = default_config\<lparr>cfg_prefix := Some ''d-''\<rparr>,
         key = ''b'', count = 2, items = [''d-x'' \<mapsto> ''_'', ''d-y'' \<mapsto> ''a''],
         cssText = ''._{top:0} .a{top:1} .d-x{top:2} .d-y{top:3}'',
         cssAst = [Rule [''._''] ''top:0'', Rule [''.a''] ''top:1'', Rule [''.d-x''] ''top:2'',
                   Rule [''.d-y''] ''top:3''],
         jsAst = [StringLiteral ''_ a''],
         rules = [Rule [''._''] ''top:0'', Rule [''.a''] ''top:1'', Rule [''.d-x''] ''top:2'',
                  Rule [''.d-y''] ''top:3''],
         classes = [''d-x'', ''d-y'']\<rparr>
   \<and> map_option cssAst (generateCss
        \<lparr>counter = 12, config = default_config\<lparr>cfg_prefix := Some ''d-''\<rparr>,
         key = ''b'', count = 2, items = [''d-x'' \<mapsto> ''_'', ''d-y'' \<mapsto> ''a''],
         cssText = ''._{top:0} .a{top:1} .d-x{top:2} .d-y{top:3}'',
         cssAst = [Rule [''._''] ''top:0'', Rule [''.a''] ''top:1'', Rule [''.d-x''] ''top:2'',
                   Rule [''.d-y''] ''top:3''],
         jsAst = [StringLiteral ''_ a''],
         rules = [Rule [''._''] ''top:0'', Rule [''.a''] ''top:1'', Rule [''.d-x''] ''top:2'',
                  Rule [''.d-y''] ''top:3''],
         classes = [''d-x'', ''d-y'']\<rparr>)
     = Some [Rule [''._''] ''top:0'', Rule [''.a''] ''top:1'', Rule [''._''] ''top:2'',
             Rule [''.a''] ''top:3'']
   \<and> \<not> collides ''._{top:0} .a{top:1} .d-x{top:2} .d-y{top:3}'' ''a''
   \<and> collides ''div.a{top:1}'' ''a''
   \<and> str_match CssCls ''.a'' = [''.a'']"
  by (simp add: eval_defs)

text \<open>With the default pattern the token \<open>a\<close> is also handed out while \<open>.a\<close> is a class
  of the stylesheet.\<close>

lemma token_collides_default_pattern:
  "map_option (\<lambda>st. (items st ''foo'', items st ''bar'', classes st))
     (run (constructor default_config) ''.a{top:1} .foo{top:2} .bar{top:3}''
        [Rule [''.a''] ''top:1'', Rule [''.foo''] ''top:2'', Rule [''.bar''] ''top:3'']
        [StringLiteral ''foo bar''])
   = Some (Some ''_'', Some ''a'', [''foo'', ''bar'', ''a''])"
  by (simp add: eval_defs)

section \<open>Runs with pattern text of the user\<close>

text \<open>With the prefix \<open>x.\<close> the dot of the prefix stands for any character: the class
  \<open>xab\<close> is in the catalog and the literal \<open>"xab"\<close> is replaced. With the prefix
  \<open>(\<close> no pattern can be built and the run ends in \<open>parseCssRules\<close>.\<close>

lemma prefix_is_pattern_text:
  "run (constructor (default_config\<lparr>cfg_prefix := Some ''x.'', cfg_prefix_css := Some x_dot_css,
          cfg_prefix_js := Some x_dot_js\<rparr>))
       ''.xab{}'' [Rule [''.xab''] []] [StringLiteral ''xab'']
     = Some \<lparr>counter = 11,
         config = default_config\<lparr>cfg_prefix := Some ''x.'', cfg_prefix_css := Some x_dot_css,
           cfg_prefix_js := Some x_dot_js\<rparr>,
         key = ''a'', count = 1, items = [''xab'' \<mapsto> ''_''], cssText = ''.xab{}'',
         cssAst = [Rule [''.xab''] []], jsAst = [StringLiteral ''_''],
         rules = [Rule [''.xab''] []], classes = [''xab'']\<rparr>
   \<and> run (constructor (default_config\<lparr>cfg_prefix := Some ''(''\<rparr>))
       ''.xab{}'' [Rule [''.xab''] []] [StringLiteral ''xab''] = None"
  by (simp add: eval_defs x_dot_css_def x_dot_js_def line_end_def)

text \<open>With \<open>config.regexp = /d-[a-z]+/g\<close> the script is rewritten by the expression
  itself, while the pattern built for the stylesheet only matches after a slash: the
  catalog is empty and \<open>generateCss\<close> leaves the selector as it is.\<close>

lemma regexp_is_rebuilt_for_the_stylesheet:
  "run (constructor (default_config\<lparr>cfg_regexp := Some (True, d_word),
          cfg_regexp_css := Some d_word_css\<rparr>))
       ''.d-box{}'' [Rule [''.d-box''] []] [StringLiteral ''d-box'']
     = Some \<lparr>counter = 11,
         config = default_config\<lparr>cfg_regexp := Some (True, d_word),
           cfg_regexp_css := Some d_word_css\<rparr>,
         key = ''a'', count = 1, items = [''d-box'' \<mapsto> ''_''], cssText = ''.d-box{}'',
         cssAst = [Rule [''.d-box''] []], jsAst = [StringLiteral ''_''],
         rules = [Rule [''.d-box''] []], classes = []\<rparr>
   \<and> map_option cssAst (generateCss
        \<lparr>counter = 11,
         config = default_config\<lparr>cfg_regexp := Some (True, d_word),
           cfg_regexp_css := Some d_word_css\<rparr>,
         key = ''a'', count = 1, items = [''d-box'' \<mapsto> ''_''], cssText = ''.d-box{}'',
         cssAst = [Rule [''.d-box''] []], jsAst = [StringLiteral ''_''],
         rules = [Rule [''.d-box''] []], classes = []\<rparr>)
     = Some [Rule [''.d-box''] []]
   \<and> str_match (Given False d_word_css) ''a/.d-box/g'' = [''/.d-box/g'']"
  by (simp add: eval_defs d_word_def d_word_css_def line_end_def)

end
